theory Spec2Isabelle
  imports Complex_Main
begin

section \<open>Trace-driven link scheduler of the bent-pipe topology\<close>

text \<open>
  The development embeds the scheduler of \<^verbatim>\<open>Topology/bent-pipe (1).py\<close>
  (class \<^verbatim>\<open>NetworkConfigThread\<close> and \<^verbatim>\<open>update_periodically\<close>) and the
  row filter of \<^verbatim>\<open>Latency/convert_ping_text_to_csv.py\<close>.

  Python floats (times in seconds, latencies in milliseconds) are modelled by
  rationals, so rounding, infinities and NaN are outside the model. Exceptions are
  values: a function that can raise returns \<open>py_error + 'a\<close>.
\<close>

subsection \<open>Python values\<close>

datatype py_error = ValueError | IndexError | KeyError | TypeError | StopIteration

text \<open>
  A \<^verbatim>\<open>dict\<close> (here a \<^verbatim>\<open>defaultdict(float)\<close>) keeps its keys in insertion
  order; assigning to a key that is present replaces the value in place.
\<close>

type_synonym ('k, 'v) dict = "('k \<times> 'v) list"

fun dict_setitem :: "'k \<Rightarrow> 'v \<Rightarrow> ('k, 'v) dict \<Rightarrow> ('k, 'v) dict" where
  "dict_setitem k v [] = [(k, v)]"
| "dict_setitem k v ((k', v') # d) =
     (if k' = k then (k', v) # d else (k', v') # dict_setitem k v d)"

definition dict_keys :: "('k, 'v) dict \<Rightarrow> 'k list" where
  "dict_keys d = map fst d"

text \<open>
  \<^verbatim>\<open>d[k]\<close> on a \<^verbatim>\<open>defaultdict(float)\<close>: a missing key is inserted with the
  default \<^verbatim>\<open>0.0\<close>, so the read returns the dictionary as well.
\<close>

definition dict_getitem :: "('k, rat) dict \<Rightarrow> 'k \<Rightarrow> rat \<times> ('k, rat) dict" where
  "dict_getitem d k =
     (case map_of d k of Some v \<Rightarrow> (v, d) | None \<Rightarrow> (0, d @ [(k, 0)]))"

text \<open>
  \<^verbatim>\<open>min(xs, key=f)\<close>: the running best is replaced only by a strictly smaller
  key, so the first minimal element wins; an empty iterable raises ValueError.
\<close>

definition min_step :: "('a \<Rightarrow> 'b::linorder) \<Rightarrow> 'a \<Rightarrow> 'a \<Rightarrow> 'a" where
  "min_step f y best = (if f y < f best then y else best)"

fun py_min :: "('a \<Rightarrow> 'b::linorder) \<Rightarrow> 'a list \<Rightarrow> py_error + 'a" where
  "py_min f [] = Inl ValueError"
| "py_min f (x # xs) = Inr (fold (min_step f) xs x)"

text \<open>\<^verbatim>\<open>int(x)\<close> on a float truncates towards zero.\<close>

definition py_int :: "rat \<Rightarrow> int" where
  "py_int x = (if 0 \<le> x then \<lfloor>x\<rfloor> else \<lceil>x\<rceil>)"

text \<open>\<^verbatim>\<open>str(n)\<close> of an integer, for the f-string \<^verbatim>\<open>f"{delay}ms"\<close>.\<close>

definition digit_char :: "nat \<Rightarrow> char" where
  "digit_char n = char_of (48 + n)"

fun str_nat :: "nat \<Rightarrow> string" where
  "str_nat n = (if n < 10 then [digit_char n] else str_nat (n div 10) @ [digit_char (n mod 10)])"

declare str_nat.simps [simp del]

definition str_int :: "int \<Rightarrow> string" where
  "str_int i = (if i < 0 then CHR ''-'' # str_nat (nat (- i)) else str_nat (nat i))"

subsection \<open>The emulation environment and the state of the program\<close>

text \<open>
  An interface of the emulation environment is known to the program by its name
  (\<^verbatim>\<open>str(intf)\<close>), its link (\<^verbatim>\<open>intf.link\<close>, with the two ends
  \<^verbatim>\<open>intf1\<close> and \<^verbatim>\<open>intf2\<close>) and the traffic-control settings it was last given:
  the keyword arguments of the last \<^verbatim>\<open>config\<close> call, \<open>None\<close> for an argument that
  was not passed.
\<close>

record tc_params =
  tc_bw :: "int option"
  tc_delay :: "string option"
  tc_loss :: "int option"

record intf =
  intf_name :: string
  intf_link :: "(nat \<times> nat) option"
  intf_tc :: tc_params

record sched_event =
  ev_time :: rat
  ev_priority :: nat
  ev_start :: rat
  ev_step :: rat

datatype pc =
  L_run | L75 | L78 | L79 | L80 | L81 | L82 | L83 | Done | Crashed py_error

text \<open>
  The state: the clock (\<open>clock w n\<close> is what the \<open>n\<close>-th call of \<^verbatim>\<open>time.time()\<close>
  returns), the global \<^verbatim>\<open>update_event\<close>, the queue of the \<^verbatim>\<open>sched\<close> scheduler,
  the network (\<^verbatim>\<open>nameToNode\<close> gives the interface list of a host), the fields of the
  \<^verbatim>\<open>NetworkConfigThread\<close> object, the local variables and program counter of
  \<^verbatim>\<open>configureNetworkConditions\<close>, and a log of the calls of
  \<^verbatim>\<open>configureStaticNetworkConditions\<close> with their arguments (delay, bw, loss).
\<close>

record world =
  clock :: "nat \<Rightarrow> rat"
  reads :: nat
  update_event :: bool
  queue :: "sched_event list"
  nameToNode :: "string \<rightharpoonup> nat list"
  intfs :: "nat \<Rightarrow> intf"
  host_name :: string
  dev :: string
  latency :: "(rat, rat) dict"
  start_time :: "rat option"
  pc :: pc
  max_updates :: nat
  updates :: nat
  delay :: int
  calls :: "(int \<times> int \<times> int) list"

definition time_time :: "world \<Rightarrow> rat \<times> world" where
  "time_time w = (clock w (reads w), w\<lparr>reads := Suc (reads w)\<rparr>)"

subsection \<open>The Nearest-Sample Selector\<close>

definition get_closest_latency :: "world \<Rightarrow> py_error + (int \<times> world)" where
  "get_closest_latency w =
     (case time_time w of (now, w1) \<Rightarrow>
        (case start_time w1 of
           None \<Rightarrow> Inl TypeError
         | Some st \<Rightarrow>
             (let now_relative = now - st in
              case py_min (\<lambda>t. \<bar>t - now_relative\<bar>) (dict_keys (latency w1)) of
                Inl e \<Rightarrow> Inl e
              | Inr closest \<Rightarrow>
                  (case dict_getitem (latency w1) closest of
                     (v, d) \<Rightarrow> Inr (py_int (v / 2), w1\<lparr>latency := d\<rparr>)))))"

subsection \<open>The Link Configurator\<close>

text \<open>
  \<^verbatim>\<open>intf.config(bw=.., delay=.., loss=..)\<close> of the emulation environment: the
  interface keeps the keyword arguments it was given.
\<close>

definition intf_config ::
  "nat \<Rightarrow> int option \<Rightarrow> string option \<Rightarrow> int option \<Rightarrow> world \<Rightarrow> world" where
  "intf_config i bw d loss w =
     w\<lparr>intfs := (intfs w)
        (i := (intfs w i)\<lparr>intf_tc := \<lparr>tc_bw = bw, tc_delay = d, tc_loss = loss\<rparr>\<rparr>)\<rparr>"

text \<open>
  The body of the \<^verbatim>\<open>for intf in host.intfList()\<close> loop (lines 88 to 91): both ends
  of the link get \<^verbatim>\<open>config(delay=f"{delay}ms", loss=loss)\<close>; no \<^verbatim>\<open>bw\<close> is passed.
\<close>

definition configure_intf :: "int \<Rightarrow> int \<Rightarrow> nat \<Rightarrow> world \<Rightarrow> world" where
  "configure_intf d loss i w =
     (case intf_link (intfs w i) of
        None \<Rightarrow> w
      | Some (a, b) \<Rightarrow>
          if intf_name (intfs w i) = dev w
          then intf_config b None (Some (str_int d @ ''ms'')) (Some loss)
                 (intf_config a None (Some (str_int d @ ''ms'')) (Some loss) w)
          else w)"

text \<open>
  \<^verbatim>\<open>configureStaticNetworkConditions(delay, bw, loss)\<close>; \<^verbatim>\<open>net.get\<close> raises
  KeyError for an unknown host name. The call is logged once it returns.
\<close>

definition configureStaticNetworkConditions ::
  "int \<Rightarrow> int \<Rightarrow> int \<Rightarrow> world \<Rightarrow> py_error + world" where
  "configureStaticNetworkConditions d bw loss w =
     (case nameToNode w (host_name w) of
        None \<Rightarrow> Inl KeyError
      | Some intf_list \<Rightarrow>
          Inr ((fold (configure_intf d loss) intf_list w)\<lparr>calls := calls w @ [(d, bw, loss)]\<rparr>))"

subsection \<open>The Periodic Trigger\<close>

definition latency_update_interval :: rat where
  "latency_update_interval = 1"

text \<open>
  \<^verbatim>\<open>scheduler.enter(delay, priority, update_periodically, (scheduler, start, step))\<close>:
  the event is due at \<^verbatim>\<open>timefunc() + delay\<close>.
\<close>

definition scheduler_enter :: "rat \<Rightarrow> nat \<Rightarrow> rat \<Rightarrow> rat \<Rightarrow> world \<Rightarrow> world" where
  "scheduler_enter dl prio start step w =
     (case time_time w of (t, w1) \<Rightarrow>
        w1\<lparr>queue := queue w1 @
          [\<lparr>ev_time = t + dl, ev_priority = prio, ev_start = start, ev_step = step\<rparr>]\<rparr>)"



subsection \<open>The Scheduler Loop\<close>

text \<open>Lines 94 to 99 of \<^verbatim>\<open>run\<close>: the start time is taken and the trigger is armed.\<close>

definition run_start :: "world \<Rightarrow> world" where
  "run_start w =
     (case time_time w of (t, w1) \<Rightarrow>
        scheduler_enter latency_update_interval 1 t latency_update_interval
          (w1\<lparr>start_time := Some t\<rparr>))"

text \<open>
  One step of the thread, by the line it stands at. At line 79 the thread stays where it
  is until \<^verbatim>\<open>update_event\<close> is set. An exception ends the thread.
\<close>

definition thread_step :: "world \<Rightarrow> world" where
  "thread_step w =
     (case pc w of
        L_run \<Rightarrow> (run_start w)\<lparr>pc := L75\<rparr>
      | L75 \<Rightarrow>
          (case configureStaticNetworkConditions 100 100 0 w of
             Inl e \<Rightarrow> w\<lparr>pc := Crashed e\<rparr>
           | Inr w1 \<Rightarrow> w1\<lparr>max_updates := 10, updates := 0, pc := L78\<rparr>)
      | L78 \<Rightarrow> if updates w < max_updates w then w\<lparr>pc := L79\<rparr> else w\<lparr>pc := Done\<rparr>
      | L79 \<Rightarrow> if update_event w then w\<lparr>pc := L80\<rparr> else w
      | L80 \<Rightarrow>
          (case get_closest_latency w of
             Inl e \<Rightarrow> w\<lparr>pc := Crashed e\<rparr>
           | Inr (d, w1) \<Rightarrow> w1\<lparr>delay := d, pc := L81\<rparr>)
      | L81 \<Rightarrow>
          (case configureStaticNetworkConditions (delay w) 100 0 w of
             Inl e \<Rightarrow> w\<lparr>pc := Crashed e\<rparr>
           | Inr w1 \<Rightarrow> w1\<lparr>pc := L82\<rparr>)
      | L82 \<Rightarrow> w\<lparr>update_event := False, pc := L83\<rparr>
      | L83 \<Rightarrow> w\<lparr>updates := updates w + 1, pc := L78\<rparr>
      | Done \<Rightarrow> w
      | Crashed e \<Rightarrow> w)"

text \<open>
  The trigger and the loop share \<^verbatim>\<open>update_event\<close> only. A run of the two threads
  is a list of atomic actions: \<open>Fire\<close> is the trigger's \<^verbatim>\<open>update_event.set()\<close>,
  \<open>Loop\<close> is one step of the loop thread.
\<close>

datatype action = Fire | Loop

fun act :: "action \<Rightarrow> world \<Rightarrow> world" where
  "act Fire w = w\<lparr>update_event := True\<rparr>"
| "act Loop w = thread_step w"

definition exec :: "action list \<Rightarrow> world \<Rightarrow> world" where
  "exec sch w = fold act sch w"

text \<open>One tick delivered and one pass through the loop body, lines 78 to 83.\<close>

definition round :: "action list" where
  "round = [Fire, Loop, Loop, Loop, Loop, Loop, Loop]"

subsection \<open>The Trace Store\<close>

text \<open>
  \<^verbatim>\<open>load_latency_trace\<close> works on the rows \<^verbatim>\<open>csv.reader\<close> yields. The builtin
  \<^verbatim>\<open>float\<close> is a parameter: \<open>None\<close> where it raises ValueError. In
  \<^verbatim>\<open>data[float(row[1])] = float(row[2])\<close> the right-hand side is evaluated first.
\<close>

definition row_item :: "string list \<Rightarrow> nat \<Rightarrow> py_error + string" where
  "row_item row i = (if i < length row then Inr (row ! i) else Inl IndexError)"

definition float_item :: "(string \<Rightarrow> rat option) \<Rightarrow> string list \<Rightarrow> nat \<Rightarrow> py_error + rat" where
  "float_item float row i =
     (case row_item row i of
        Inl e \<Rightarrow> Inl e
      | Inr s \<Rightarrow> (case float s of None \<Rightarrow> Inl ValueError | Some x \<Rightarrow> Inr x))"

fun load_rows ::
  "(string \<Rightarrow> rat option) \<Rightarrow> string list list \<Rightarrow> (rat, rat) dict \<Rightarrow> py_error + (rat, rat) dict"
  where
  "load_rows float [] data = Inr data"
| "load_rows float (row # rows) data =
     (case float_item float row 2 of
        Inl e \<Rightarrow> Inl e
      | Inr v \<Rightarrow>
          (case float_item float row 1 of
             Inl e \<Rightarrow> Inl e
           | Inr k \<Rightarrow> load_rows float rows (dict_setitem k v data)))"

definition load_latency_trace ::
  "(string \<Rightarrow> rat option) \<Rightarrow> string list list \<Rightarrow> py_error + (rat, rat) dict" where
  "load_latency_trace float csv_rows =
     (case csv_rows of
        [] \<Rightarrow> Inl StopIteration
      | header # rows \<Rightarrow> load_rows float rows [])"

subsection \<open>The ping-text converter\<close>

text \<open>
  The loop of \<^verbatim>\<open>convert_to_csv\<close> (lines 12 to 22) over the lines of the input:
  \<^verbatim>\<open>str.strip\<close>, \<^verbatim>\<open>str.split(',')\<close>, and the body of the \<^verbatim>\<open>try\<close>, which is
  \<open>None\<close> when one of its statements raises. The unpacking into two names raises
  unless the split gives exactly two parts. \<^verbatim>\<open>datetime.strptime\<close> and \<^verbatim>\<open>float\<close>
  are parameters.
\<close>

definition is_space :: "char \<Rightarrow> bool" where
  "is_space c = (c \<in> set [CHR '' '', CHR 0x09, CHR 0x0A, CHR 0x0B, CHR 0x0C, CHR 0x0D,
                           CHR 0x1C, CHR 0x1D, CHR 0x1E, CHR 0x1F])"

definition strip :: "string \<Rightarrow> string" where
  "strip s = rev (dropWhile is_space (rev (dropWhile is_space s)))"

fun split_on :: "char \<Rightarrow> string \<Rightarrow> string list" where
  "split_on c [] = [[]]"
| "split_on c (x # xs) =
     (if x = c then [] # split_on c xs
      else (case split_on c xs of [] \<Rightarrow> [[x]] | p # ps \<Rightarrow> (x # p) # ps))"

definition parse_line ::
  "(string \<Rightarrow> 'ts option) \<Rightarrow> (string \<Rightarrow> rat option) \<Rightarrow> string \<Rightarrow> ('ts \<times> rat) option" where
  "parse_line strptime float line =
     (case split_on CHR '','' (strip line) of
        [ts_str, rtt_str] \<Rightarrow>
          (case strptime (strip ts_str) of
             None \<Rightarrow> None
           | Some ts \<Rightarrow>
               (case float (strip rtt_str) of None \<Rightarrow> None | Some rtt \<Rightarrow> Some (ts, rtt)))
      | _ \<Rightarrow> None)"

text \<open>
  The state of the loop: \<^verbatim>\<open>timestamps\<close>, \<^verbatim>\<open>rtts\<close>, and the lines reported as
  skipped.
\<close>

fun convert_rows ::
  "(string \<Rightarrow> 'ts option) \<Rightarrow> (string \<Rightarrow> rat option) \<Rightarrow> string list \<Rightarrow>
   'ts list \<times> rat list \<times> string list \<Rightarrow> 'ts list \<times> rat list \<times> string list" where
  "convert_rows strptime float [] acc = acc"
| "convert_rows strptime float (line # lines) (timestamps, rtts, skipped) =
     (if strip line = [] then convert_rows strptime float lines (timestamps, rtts, skipped)
      else (case parse_line strptime float line of
              Some (ts, rtt) \<Rightarrow>
                convert_rows strptime float lines (timestamps @ [ts], rtts @ [rtt], skipped)
            | None \<Rightarrow>
                convert_rows strptime float lines (timestamps, rtts, skipped @ [strip line])))"

definition convert_to_csv ::
  "(string \<Rightarrow> 'ts option) \<Rightarrow> (string \<Rightarrow> rat option) \<Rightarrow> string list \<Rightarrow>
   'ts list \<times> rat list \<times> string list" where
  "convert_to_csv strptime float lines = convert_rows strptime float (drop 1 lines) ([], [], [])"

subsection \<open>Concrete inputs\<close>

text \<open>
  \<^verbatim>\<open>float\<close> on plain decimal literals: optional surrounding whitespace, an optional
  sign, digits with an optional fraction. The other spellings Python accepts
  (exponents, \<^verbatim>\<open>inf\<close>, \<^verbatim>\<open>nan\<close>, underscores) are not covered; it serves as a
  concrete value for the parameter of the loaders.
\<close>

definition is_digit :: "char \<Rightarrow> bool" where
  "is_digit c = (48 \<le> (of_char c :: nat) \<and> (of_char c :: nat) \<le> 57)"

definition digits_value :: "string \<Rightarrow> nat" where
  "digits_value s = foldl (\<lambda>a c. 10 * a + (of_char c - 48)) 0 s"

definition unsigned_decimal :: "string \<Rightarrow> rat option" where
  "unsigned_decimal s =
     (let ip = takeWhile is_digit s; rest = dropWhile is_digit s in
      case rest of
        [] \<Rightarrow> if ip = [] then None else Some (of_nat (digits_value ip))
      | c # fp \<Rightarrow>
          if c = CHR ''.'' \<and> list_all is_digit fp \<and> (ip \<noteq> [] \<or> fp \<noteq> [])
          then Some (of_nat (digits_value ip) + of_nat (digits_value fp) / 10 ^ length fp)
          else None)"

definition float_decimal :: "string \<Rightarrow> rat option" where
  "float_decimal s =
     (case strip s of
        [] \<Rightarrow> None
      | c # r \<Rightarrow>
          if c = CHR ''-'' then map_option uminus (unsigned_decimal r)
          else if c = CHR ''+'' then unsigned_decimal r
          else unsigned_decimal (c # r))"

text \<open>
  The topology the script builds: hosts user, router, pop and dst, three links, the
  router to pop link created with \<^verbatim>\<open>bw=100, delay="100ms", loss=0\<close>; the thread is
  made for host \<^verbatim>\<open>router\<close> and device \<^verbatim>\<open>router-eth1\<close>. The trace is the one of
  Scenario A, the start time 0, every clock reading 0.9, and the thread stands at the
  head of its loop.
\<close>

definition unlinked :: intf where
  "unlinked = \<lparr>intf_name = [], intf_link = None,
     intf_tc = \<lparr>tc_bw = None, tc_delay = None, tc_loss = None\<rparr>\<rparr>"

definition bent_pipe_intfs :: "nat \<Rightarrow> intf" where
  "bent_pipe_intfs =
     (\<lambda>i. unlinked)
     (0 := \<lparr>intf_name = ''user-eth0'', intf_link = Some (0, 1),
            intf_tc = \<lparr>tc_bw = Some 1000, tc_delay = None, tc_loss = None\<rparr>\<rparr>,
      1 := \<lparr>intf_name = ''router-eth0'', intf_link = Some (0, 1),
            intf_tc = \<lparr>tc_bw = Some 1000, tc_delay = None, tc_loss = None\<rparr>\<rparr>,
      2 := \<lparr>intf_name = ''router-eth1'', intf_link = Some (2, 3),
            intf_tc = \<lparr>tc_bw = Some 100, tc_delay = Some ''100ms'', tc_loss = Some 0\<rparr>\<rparr>,
      3 := \<lparr>intf_name = ''pop-eth0'', intf_link = Some (2, 3),
            intf_tc = \<lparr>tc_bw = Some 100, tc_delay = Some ''100ms'', tc_loss = Some 0\<rparr>\<rparr>,
      4 := \<lparr>intf_name = ''pop-eth1'', intf_link = Some (4, 5),
            intf_tc = \<lparr>tc_bw = Some 1000, tc_delay = None, tc_loss = None\<rparr>\<rparr>,
      5 := \<lparr>intf_name = ''dst-eth0'', intf_link = Some (4, 5),
            intf_tc = \<lparr>tc_bw = Some 1000, tc_delay = None, tc_loss = None\<rparr>\<rparr>)"

definition bent_pipe :: world where
  "bent_pipe =
     \<lparr>clock = (\<lambda>n. 9 / 10), reads = 0, update_event = False, queue = [],
      nameToNode = [''user'' \<mapsto> [0], ''router'' \<mapsto> [1, 2], ''pop'' \<mapsto> [3, 4],
                    ''dst'' \<mapsto> [5]],
      intfs = bent_pipe_intfs, host_name = ''router'', dev = ''router-eth1'',
      latency = [(0, 100), (1, 300), (2, 50)], start_time = Some 0, pc = L78,
      max_updates = 10, updates = 0, delay = 0, calls = []\<rparr>"

subsection \<open>Invariant of the Scheduler Loop\<close>

text \<open>
  \<open>static_ok\<close>: the trace is not empty, the start time is set and the host name
  resolves. \<open>loop_inv N b\<close> relates, line by line, the number of logged
  Configurator calls to \<^verbatim>\<open>updates\<close>, for a loop bound \<open>N\<close> and \<open>b\<close> calls logged
  when the loop is entered.
\<close>

definition static_ok :: "world \<Rightarrow> bool" where
  "static_ok w = (latency w \<noteq> [] \<and> start_time w \<noteq> None \<and> nameToNode w (host_name w) \<noteq> None)"

definition loop_inv :: "nat \<Rightarrow> nat \<Rightarrow> world \<Rightarrow> bool" where
  "loop_inv N b w =
     (static_ok w \<and>
      (case pc w of
         L_run \<Rightarrow> False
       | L75 \<Rightarrow> N = 10 \<and> length (calls w) + 1 = b
       | L78 \<Rightarrow> max_updates w = N \<and> updates w \<le> N \<and> length (calls w) = b + updates w
       | L79 \<Rightarrow> max_updates w = N \<and> updates w < N \<and> length (calls w) = b + updates w
       | L80 \<Rightarrow> max_updates w = N \<and> updates w < N \<and> length (calls w) = b + updates w
       | L81 \<Rightarrow> max_updates w = N \<and> updates w < N \<and> length (calls w) = b + updates w
       | L82 \<Rightarrow> max_updates w = N \<and> updates w < N \<and> length (calls w) = b + updates w + 1
       | L83 \<Rightarrow> max_updates w = N \<and> updates w < N \<and> length (calls w) = b + updates w + 1
       | Done \<Rightarrow> max_updates w = N \<and> updates w = N \<and> length (calls w) = b + N
       | Crashed e \<Rightarrow> False))"

text \<open>
  \<open>baseline_first c0\<close>: before the baseline call the log is \<open>c0\<close>; afterwards it is
  \<open>c0\<close>, the baseline call, and the dynamic calls.
\<close>

definition baseline_first :: "(int \<times> int \<times> int) list \<Rightarrow> world \<Rightarrow> bool" where
  "baseline_first c0 w =
     (if pc w = L75 then calls w = c0 else (\<exists>dyn. calls w = c0 @ (100, 100, 0) # dyn))"

text \<open>
  \<open>pending w\<close> is 1 when a tick is pending. \<open>tick_inv b k\<close> relates, line by line, the
  logged Configurator calls to the ticks signalled: \<open>b\<close> calls are logged once the
  baseline call is made, and \<open>k\<close> counts the firings of the trigger so far plus the tick
  pending at the start.
\<close>

definition pending :: "world \<Rightarrow> nat" where
  "pending w = (if update_event w then 1 else 0)"

definition tick_inv :: "nat \<Rightarrow> nat \<Rightarrow> world \<Rightarrow> bool" where
  "tick_inv b k w =
     (case pc w of
        L_run \<Rightarrow> True
      | L75 \<Rightarrow> pending w \<le> k
      | L78 \<Rightarrow> length (calls w) + pending w \<le> b + k
      | L79 \<Rightarrow> length (calls w) + pending w \<le> b + k
      | L80 \<Rightarrow> update_event w \<and> length (calls w) + 1 \<le> b + k
      | L81 \<Rightarrow> update_event w \<and> length (calls w) + 1 \<le> b + k
      | L82 \<Rightarrow> update_event w \<and> length (calls w) \<le> b + k
      | L83 \<Rightarrow> length (calls w) + pending w \<le> b + k
      | Done \<Rightarrow> length (calls w) + pending w \<le> b + k
      | Crashed e \<Rightarrow> True)"

text \<open>
  The thread at line 75 with the trace of a file that holds a header line only.
\<close>

definition header_only_run :: world where
  "header_only_run = bent_pipe\<lparr>pc := L75, latency := []\<rparr>"

text \<open>
  The rows of a trace file that holds a header line only, and of one whose header is
  styled as data and whose second data row has a field that is not a number.
\<close>

definition header_only_file :: "string list list" where
  "header_only_file = [[''timestamp'', ''relative'', ''rtt'']]"

definition styled_header_file :: "string list list" where
  "styled_header_file =
     [[''t'', ''5.0'', ''7.0''], [''a'', ''0.0'', ''100.0''], [''b'', ''oops'', ''1.0'']]"



section \<open>Properties\<close>

subsection \<open>The Nearest-Sample Selector\<close>

lemma fold_min_step_first:
  "\<exists>pre post. x # xs = pre @ fold (min_step f) xs x # post \<and>
     (\<forall>y\<in>set pre. f (fold (min_step f) xs x) < f y) \<and>
     (\<forall>y\<in>set post. f (fold (min_step f) xs x) \<le> f y)"
proof (induction xs rule: rev_induct)
  case Nil
  have "[x] = [] @ fold (min_step f) [] x # [] \<and>
     (\<forall>y\<in>set []. f (fold (min_step f) [] x) < f y) \<and>
     (\<forall>y\<in>set []. f (fold (min_step f) [] x) \<le> f y)" by simp
  then show ?case by blast
next
  case (snoc z zs)
  let ?m = "fold (min_step f) zs x"
  obtain pre post where pp: "x # zs = pre @ ?m # post"
    "\<forall>y\<in>set pre. f ?m < f y" "\<forall>y\<in>set post. f ?m \<le> f y"
    using snoc.IH by blast
  have all: "\<forall>y\<in>set (x # zs). f ?m \<le> f y"
  proof
    fix y assume "y \<in> set (x # zs)"
    then have "y \<in> set (pre @ ?m # post)" using pp(1) by simp
    then have "y \<in> set pre \<or> y = ?m \<or> y \<in> set post" by auto
    then show "f ?m \<le> f y" using pp(2,3) by auto
  qed
  show ?case
  proof (cases "f z < f ?m")
    case True
    have m': "fold (min_step f) (zs @ [z]) x = z" using True by (simp add: min_step_def)
    have "x # zs @ [z] = (x # zs) @ z # [] \<and> (\<forall>y\<in>set (x # zs). f z < f y) \<and>
       (\<forall>y\<in>set []. f z \<le> f y)"
      using all True by auto
    then show ?thesis unfolding m' by blast
  next
    case False
    have m': "fold (min_step f) (zs @ [z]) x = ?m" using False by (simp add: min_step_def)
    have "x # zs @ [z] = pre @ ?m # (post @ [z]) \<and> (\<forall>y\<in>set pre. f ?m < f y) \<and>
       (\<forall>y\<in>set (post @ [z]). f ?m \<le> f y)"
      using pp False by auto
    then show ?thesis unfolding m' by blast
  qed
qed

lemma py_min_first:
  assumes "xs \<noteq> []"
  shows "\<exists>m pre post. py_min f xs = Inr m \<and> xs = pre @ m # post \<and>
     (\<forall>y\<in>set pre. f m < f y) \<and> (\<forall>y\<in>set xs. f m \<le> f y)"
proof -
  obtain x ys where xs: "xs = x # ys" using assms by (cases xs) auto
  let ?m = "fold (min_step f) ys x"
  obtain pre post where pp: "x # ys = pre @ ?m # post"
    "\<forall>y\<in>set pre. f ?m < f y" "\<forall>y\<in>set post. f ?m \<le> f y"
    using fold_min_step_first[of x ys f] by blast
  have all: "\<forall>y\<in>set xs. f ?m \<le> f y"
  proof
    fix y assume "y \<in> set xs"
    then have "y \<in> set (pre @ ?m # post)" using pp(1) xs by simp
    then have "y \<in> set pre \<or> y = ?m \<or> y \<in> set post" by auto
    then show "f ?m \<le> f y" using pp(2,3) by auto
  qed
  have "py_min f xs = Inr ?m" using xs by simp
  moreover have "xs = pre @ ?m # post" using pp(1) xs by simp
  ultimately show ?thesis using pp(2) all by blast
qed

lemma map_of_dict_keys:
  "k \<in> set (dict_keys d) \<Longrightarrow> \<exists>v. map_of d k = Some v"
  by (induction d) (auto simp: dict_keys_def)

lemma scenario_A_value:
  assumes "latency w = [(0, 100), (1, 300), (2, 50)]" and "start_time w = Some st"
    and "clock w (reads w) - st = 9 / 10"
  shows "get_closest_latency w = Inr (150, w\<lparr>reads := Suc (reads w)\<rparr>)"
  using assms
  by (simp add: get_closest_latency_def time_time_def dict_keys_def min_step_def
      dict_getitem_def py_int_def)

text \<open>
  C1. For a non-empty trace and a thread whose start time is set, with \<open>e\<close> the clock
  reading minus the start time, \<^verbatim>\<open>get_closest_latency\<close> returns \<open>int(v / 2)\<close>
  where \<open>v\<close> is the value stored at a key \<open>k\<close> of the trace whose distance to \<open>e\<close>
  is minimal over all keys, \<open>k\<close> being the first such key in the iteration order of
  the trace; it raises nothing and changes nothing but the clock. For the trace
  \<open>{0.0: 100.0, 1.0: 300.0, 2.0: 50.0}\<close> at \<open>e = 0.9\<close> the result is 150.
\<close>

theorem closest_latency_is_half_of_nearest:
  assumes "latency w \<noteq> []" and "start_time w = Some st"
  shows "(\<exists>k v pre post.
     dict_keys (latency w) = pre @ k # post \<and>
     (\<forall>k'\<in>set pre. \<bar>k - (clock w (reads w) - st)\<bar> < \<bar>k' - (clock w (reads w) - st)\<bar>) \<and>
     (\<forall>k'\<in>set (dict_keys (latency w)).
        \<bar>k - (clock w (reads w) - st)\<bar> \<le> \<bar>k' - (clock w (reads w) - st)\<bar>) \<and>
     map_of (latency w) k = Some v \<and>
     get_closest_latency w = Inr (py_int (v / 2), w\<lparr>reads := Suc (reads w)\<rparr>)) \<and>
    (latency w = [(0, 100), (1, 300), (2, 50)] \<and> clock w (reads w) - st = 9 / 10 \<longrightarrow>
     get_closest_latency w = Inr (150, w\<lparr>reads := Suc (reads w)\<rparr>))"
proof -
  let ?e = "clock w (reads w) - st"
  let ?f = "\<lambda>t. \<bar>t - ?e\<bar>"
  have ne: "dict_keys (latency w) \<noteq> []" using assms(1) by (simp add: dict_keys_def)
  obtain k pre post where m: "py_min ?f (dict_keys (latency w)) = Inr k"
    "dict_keys (latency w) = pre @ k # post"
    "\<forall>y\<in>set pre. ?f k < ?f y" "\<forall>y\<in>set (dict_keys (latency w)). ?f k \<le> ?f y"
    using py_min_first[OF ne, of ?f] by blast
  have "k \<in> set (dict_keys (latency w))" using m(2) by simp
  then obtain v where v: "map_of (latency w) k = Some v"
    using map_of_dict_keys by fastforce
  have "get_closest_latency w = Inr (py_int (v / 2), w\<lparr>reads := Suc (reads w)\<rparr>)"
    using m(1) v assms(2)
    by (simp add: get_closest_latency_def time_time_def dict_getitem_def)
  then have general: "\<exists>k v pre post.
     dict_keys (latency w) = pre @ k # post \<and>
     (\<forall>k'\<in>set pre. ?f k < ?f k') \<and>
     (\<forall>k'\<in>set (dict_keys (latency w)). ?f k \<le> ?f k') \<and>
     map_of (latency w) k = Some v \<and>
     get_closest_latency w = Inr (py_int (v / 2), w\<lparr>reads := Suc (reads w)\<rparr>)"
    using m(2,3,4) v by blast
  have "latency w = [(0, 100), (1, 300), (2, 50)] \<and> ?e = 9 / 10 \<longrightarrow>
     get_closest_latency w = Inr (150, w\<lparr>reads := Suc (reads w)\<rparr>)"
    using scenario_A_value[OF _ assms(2)] by blast
  with general show ?thesis by blast
qed

theorem closest_latency_is_half_of_nearest_witness:
  "latency bent_pipe \<noteq> [] \<and> start_time bent_pipe = Some 0 \<and>
   latency bent_pipe = [(0, 100), (1, 300), (2, 50)] \<and>
   clock bent_pipe (reads bent_pipe) - 0 = 9 / 10 \<and>
   get_closest_latency bent_pipe = Inr (150, bent_pipe\<lparr>reads := Suc (reads bent_pipe)\<rparr>)"
proof -
  have h1: "latency bent_pipe \<noteq> []" by (simp add: bent_pipe_def)
  have h2: "start_time bent_pipe = Some 0" by (simp add: bent_pipe_def)
  have h3: "latency bent_pipe = [(0, 100), (1, 300), (2, 50)]" by (simp add: bent_pipe_def)
  have h4: "clock bent_pipe (reads bent_pipe) - 0 = 9 / 10" by (simp add: bent_pipe_def)
  show ?thesis
    using closest_latency_is_half_of_nearest[OF h1 h2] h1 h2 h3 h4 by blast
qed

subsection \<open>The Link Configurator\<close>

lemma configure_intf_only_intfs:
  "configure_intf d loss i w = w\<lparr>intfs := intfs (configure_intf d loss i w)\<rparr>"
  by (simp add: configure_intf_def intf_config_def split: option.splits prod.splits)

lemma fold_configure_intf_only_intfs:
  "fold (configure_intf d loss) il w = w\<lparr>intfs := intfs (fold (configure_intf d loss) il w)\<rparr>"
proof (induction il arbitrary: w)
  case Nil
  show ?case by simp
next
  case (Cons i il)
  let ?w1 = "configure_intf d loss i w"
  have a: "?w1 = w\<lparr>intfs := intfs ?w1\<rparr>" by (rule configure_intf_only_intfs)
  have "fold (configure_intf d loss) il ?w1 =
        ?w1\<lparr>intfs := intfs (fold (configure_intf d loss) il ?w1)\<rparr>" by (rule Cons.IH)
  also have "\<dots> = w\<lparr>intfs := intfs (fold (configure_intf d loss) il ?w1)\<rparr>"
    by (subst a) simp
  finally show ?case by simp
qed

lemma configureStatic_resolved:
  assumes "nameToNode w (host_name w) = Some il"
  shows "configureStaticNetworkConditions d bw loss w =
     Inr (w\<lparr>intfs := intfs (fold (configure_intf d loss) il w), calls := calls w @ [(d, bw, loss)]\<rparr>)"
proof -
  have "fold (configure_intf d loss) il w = w\<lparr>intfs := intfs (fold (configure_intf d loss) il w)\<rparr>"
    by (rule fold_configure_intf_only_intfs)
  then have "(fold (configure_intf d loss) il w)\<lparr>calls := calls w @ [(d, bw, loss)]\<rparr> =
     w\<lparr>intfs := intfs (fold (configure_intf d loss) il w), calls := calls w @ [(d, bw, loss)]\<rparr>"
    by (metis world.update_convs(6))
  then show ?thesis using assms by (simp add: configureStaticNetworkConditions_def)
qed

lemma fold_configure_intf_no_match:
  assumes "\<forall>i\<in>set il. intf_link (intfs w i) = None \<or> intf_name (intfs w i) \<noteq> dev w"
  shows "fold (configure_intf d loss) il w = w"
  using assms
proof (induction il)
  case Nil
  show ?case by simp
next
  case (Cons i il)
  have "configure_intf d loss i w = w"
    using Cons.prems by (auto simp: configure_intf_def split: option.splits)
  then show ?case using Cons by simp
qed


lemma delay_100ms: "str_int 100 @ ''ms'' = ''100ms''"
  by code_simp

subsection \<open>The Scheduler Loop\<close>

lemma get_closest_latency_ok:
  assumes "latency w \<noteq> []" and "start_time w = Some st"
  shows "\<exists>d. get_closest_latency w = Inr (d, w\<lparr>reads := Suc (reads w)\<rparr>)"
proof -
  let ?f = "\<lambda>t. \<bar>t - (clock w (reads w) - st)\<bar>"
  have ne: "dict_keys (latency w) \<noteq> []" using assms(1) by (simp add: dict_keys_def)
  obtain k pre post where m: "py_min ?f (dict_keys (latency w)) = Inr k"
    "dict_keys (latency w) = pre @ k # post"
    using py_min_first[OF ne, of ?f] by blast
  have "k \<in> set (dict_keys (latency w))" using m(2) by simp
  then obtain v where v: "map_of (latency w) k = Some v"
    using map_of_dict_keys by fastforce
  have "get_closest_latency w = Inr (py_int (v / 2), w\<lparr>reads := Suc (reads w)\<rparr>)"
    using m(1) v assms(2)
    by (simp add: get_closest_latency_def time_time_def dict_getitem_def)
  then show ?thesis by blast
qed

lemma get_closest_latency_empty:
  assumes "latency w = []" and "start_time w = Some st"
  shows "get_closest_latency w = Inl ValueError"
  using assms by (simp add: get_closest_latency_def time_time_def dict_keys_def)

lemma thread_step_L78:
  "pc w = L78 \<Longrightarrow> thread_step w = (if updates w < max_updates w then w\<lparr>pc := L79\<rparr> else w\<lparr>pc := Done\<rparr>)"
  by (simp add: thread_step_def)

lemma thread_step_L79:
  "pc w = L79 \<Longrightarrow> thread_step w = (if update_event w then w\<lparr>pc := L80\<rparr> else w)"
  by (simp add: thread_step_def)

lemma thread_step_L80:
  assumes "pc w = L80" "latency w \<noteq> []" "start_time w = Some st"
  shows "\<exists>d. thread_step w = w\<lparr>reads := Suc (reads w), delay := d, pc := L81\<rparr>"
proof -
  obtain d where "get_closest_latency w = Inr (d, w\<lparr>reads := Suc (reads w)\<rparr>)"
    using get_closest_latency_ok[OF assms(2,3)] by blast
  then have "thread_step w = w\<lparr>reads := Suc (reads w), delay := d, pc := L81\<rparr>"
    using assms(1) by (simp add: thread_step_def)
  then show ?thesis by blast
qed

lemma thread_step_L81:
  assumes "pc w = L81" "nameToNode w (host_name w) = Some il"
  shows "thread_step w = w\<lparr>intfs := intfs (fold (configure_intf (delay w) 0) il w),
     calls := calls w @ [(delay w, 100, 0)], pc := L82\<rparr>"
  using assms by (simp add: thread_step_def configureStatic_resolved)

lemma thread_step_L75:
  assumes "pc w = L75" "nameToNode w (host_name w) = Some il"
  shows "thread_step w = w\<lparr>intfs := intfs (fold (configure_intf 100 0) il w),
     calls := calls w @ [(100, 100, 0)], max_updates := 10, updates := 0, pc := L78\<rparr>"
  using assms by (simp add: thread_step_def configureStatic_resolved)

lemma thread_step_L82:
  "pc w = L82 \<Longrightarrow> thread_step w = w\<lparr>update_event := False, pc := L83\<rparr>"
  by (simp add: thread_step_def)

lemma thread_step_L83:
  "pc w = L83 \<Longrightarrow> thread_step w = w\<lparr>updates := updates w + 1, pc := L78\<rparr>"
  by (simp add: thread_step_def)

lemma thread_step_Done:
  "pc w = Done \<Longrightarrow> thread_step w = w"
  by (simp add: thread_step_def)

lemma loop_inv_thread_step:
  assumes "loop_inv N b w"
  shows "loop_inv N b (thread_step w)"
proof -
  from assms have st: "static_ok w" by (simp add: loop_inv_def)
  then obtain t il where t: "start_time w = Some t" and il: "nameToNode w (host_name w) = Some il"
    and ne: "latency w \<noteq> []"
    by (auto simp: static_ok_def)
  show ?thesis
  proof (cases "pc w")
    case L_run
    then show ?thesis using assms by (simp add: loop_inv_def)
  next
    case L75
    then show ?thesis using assms thread_step_L75[OF L75 il]
      by (simp add: loop_inv_def static_ok_def)
  next
    case L78
    then show ?thesis using assms
      by (auto simp: thread_step_L78 loop_inv_def static_ok_def)
  next
    case L79
    then show ?thesis using assms
      by (auto simp: thread_step_L79 loop_inv_def static_ok_def)
  next
    case L80
    obtain d where "thread_step w = w\<lparr>reads := Suc (reads w), delay := d, pc := L81\<rparr>"
      using thread_step_L80[OF L80 ne t] by blast
    then show ?thesis using assms L80 by (simp add: loop_inv_def static_ok_def)
  next
    case L81
    then show ?thesis using assms thread_step_L81[OF L81 il]
      by (simp add: loop_inv_def static_ok_def)
  next
    case L82
    then show ?thesis using assms by (simp add: thread_step_L82 loop_inv_def static_ok_def)
  next
    case L83
    then show ?thesis using assms by (auto simp: thread_step_L83 loop_inv_def static_ok_def)
  next
    case Done
    then show ?thesis using assms by (simp add: thread_step_Done)
  next
    case (Crashed e)
    then show ?thesis using assms by (simp add: loop_inv_def)
  qed
qed

lemma loop_inv_act:
  assumes "loop_inv N b w"
  shows "loop_inv N b (act a w)"
proof (cases a)
  case Fire
  then show ?thesis using assms by (simp add: loop_inv_def static_ok_def split: pc.splits)
next
  case Loop
  then show ?thesis using assms by (simp add: loop_inv_thread_step)
qed

lemma loop_inv_exec:
  "loop_inv N b w \<Longrightarrow> loop_inv N b (exec sch w)"
  unfolding exec_def
  by (induction sch arbitrary: w) (simp_all add: loop_inv_act)

lemma loop_inv_calls_bound:
  "loop_inv N b w \<Longrightarrow> length (calls w) \<le> b + N"
  by (cases "pc w") (auto simp: loop_inv_def)

lemma done_act: "pc w = Done \<Longrightarrow> pc (act a w) = Done \<and> calls (act a w) = calls w \<and> intfs (act a w) = intfs w"
  by (cases a) (simp_all add: thread_step_Done)

lemma done_exec: "pc w = Done \<Longrightarrow> pc (exec sch w) = Done \<and> calls (exec sch w) = calls w \<and> intfs (exec sch w) = intfs w"
  unfolding exec_def
proof (induction sch arbitrary: w)
  case Nil
  then show ?case by simp
next
  case (Cons a sch)
  have "pc (act a w) = Done" using Cons.prems done_act by blast
  from Cons.IH[OF this] show ?case using done_act[OF Cons.prems, of a] by simp
qed


lemma exec_append: "exec (xs @ ys) w = exec ys (exec xs w)"
  by (simp add: exec_def)

lemma exec_Cons: "exec (a # sch) w = exec sch (act a w)"
  by (simp add: exec_def)

lemma exec_Nil: "exec [] w = w"
  by (simp add: exec_def)

lemma exec_round:
  assumes pc: "pc w = L78" and lt: "updates w < max_updates w"
    and ne: "latency w \<noteq> []" and st: "start_time w = Some t"
    and il: "nameToNode w (host_name w) = Some il"
  shows "\<exists>d X. exec round w =
      w\<lparr>reads := Suc (reads w), update_event := False, intfs := X, updates := updates w + 1,
        delay := d, calls := calls w @ [(d, 100, 0)]\<rparr> \<and>
      ((\<forall>i\<in>set il. intf_link (intfs w i) = None \<or> intf_name (intfs w i) \<noteq> dev w) \<longrightarrow>
         X = intfs w)"
proof -
  let ?w1 = "w\<lparr>update_event := True\<rparr>"
  let ?w2 = "?w1\<lparr>pc := L79\<rparr>"
  let ?w3 = "?w2\<lparr>pc := L80\<rparr>"
  have s2: "thread_step ?w1 = ?w2" using pc lt by (simp add: thread_step_L78)
  have s3: "thread_step ?w2 = ?w3" by (simp add: thread_step_L79)
  obtain d where s4: "thread_step ?w3 = ?w3\<lparr>reads := Suc (reads ?w3), delay := d, pc := L81\<rparr>"
    using thread_step_L80[of ?w3 t] ne st by auto
  let ?w4 = "?w3\<lparr>reads := Suc (reads ?w3), delay := d, pc := L81\<rparr>"
  let ?X = "intfs (fold (configure_intf d 0) il ?w4)"
  let ?w5 = "?w4\<lparr>intfs := ?X, calls := calls ?w4 @ [(d, 100, 0)], pc := L82\<rparr>"
  have s5: "thread_step ?w4 = ?w5"
    using thread_step_L81[of ?w4 il] il by simp
  let ?w6 = "?w5\<lparr>update_event := False, pc := L83\<rparr>"
  have s6: "thread_step ?w5 = ?w6" by (simp add: thread_step_L82)
  let ?w7 = "?w6\<lparr>updates := updates ?w6 + 1, pc := L78\<rparr>"
  have s7: "thread_step ?w6 = ?w7" by (simp add: thread_step_L83)
  have "exec round w = ?w7"
    by (simp only: round_def exec_Cons exec_Nil act.simps s2 s3 s4 s5 s6 s7)
  also have "?w7 = w\<lparr>reads := Suc (reads w), update_event := False, intfs := ?X,
      updates := updates w + 1, delay := d, calls := calls w @ [(d, 100, 0)]\<rparr>"
    using pc by simp
  finally have e: "exec round w = w\<lparr>reads := Suc (reads w), update_event := False, intfs := ?X,
      updates := updates w + 1, delay := d, calls := calls w @ [(d, 100, 0)]\<rparr>" .
  have "(\<forall>i\<in>set il. intf_link (intfs w i) = None \<or> intf_name (intfs w i) \<noteq> dev w) \<longrightarrow>
      ?X = intfs w"
  proof
    assume nm: "\<forall>i\<in>set il. intf_link (intfs w i) = None \<or> intf_name (intfs w i) \<noteq> dev w"
    then have "\<forall>i\<in>set il. intf_link (intfs ?w4 i) = None \<or> intf_name (intfs ?w4 i) \<noteq> dev ?w4"
      by simp
    then have "fold (configure_intf d 0) il ?w4 = ?w4" by (rule fold_configure_intf_no_match)
    then show "?X = intfs w" by simp
  qed
  with e show ?thesis by blast
qed

lemma exec_rounds:
  assumes "pc w = L78" and "updates w + k \<le> max_updates w"
    and "latency w \<noteq> []" and "start_time w = Some t"
    and "nameToNode w (host_name w) = Some il"
  shows "pc (exec (concat (replicate k round)) w) = L78 \<and>
     updates (exec (concat (replicate k round)) w) = updates w + k \<and>
     max_updates (exec (concat (replicate k round)) w) = max_updates w \<and>
     length (calls (exec (concat (replicate k round)) w)) = length (calls w) + k \<and>
     ((\<forall>i\<in>set il. intf_link (intfs w i) = None \<or> intf_name (intfs w i) \<noteq> dev w) \<longrightarrow>
        intfs (exec (concat (replicate k round)) w) = intfs w)"
  using assms
proof (induction k arbitrary: w)
  case 0
  then show ?case by (simp add: exec_Nil)
next
  case (Suc k)
  have lt: "updates w < max_updates w" using Suc.prems(2) by simp
  obtain d X where r: "exec round w =
      w\<lparr>reads := Suc (reads w), update_event := False, intfs := X, updates := updates w + 1,
        delay := d, calls := calls w @ [(d, 100, 0)]\<rparr>"
    and nm: "(\<forall>i\<in>set il. intf_link (intfs w i) = None \<or> intf_name (intfs w i) \<noteq> dev w) \<longrightarrow>
         X = intfs w"
    using exec_round[OF Suc.prems(1) lt Suc.prems(3,4,5)] by blast
  let ?w' = "exec round w"
  have p: "pc ?w' = L78" "updates ?w' + k \<le> max_updates ?w'" "latency ?w' \<noteq> []"
    "start_time ?w' = Some t" "nameToNode ?w' (host_name ?w') = Some il"
    using Suc.prems by (simp_all add: r)
  have ih: "pc (exec (concat (replicate k round)) ?w') = L78 \<and>
     updates (exec (concat (replicate k round)) ?w') = updates ?w' + k \<and>
     max_updates (exec (concat (replicate k round)) ?w') = max_updates ?w' \<and>
     length (calls (exec (concat (replicate k round)) ?w')) = length (calls ?w') + k \<and>
     ((\<forall>i\<in>set il. intf_link (intfs ?w' i) = None \<or> intf_name (intfs ?w' i) \<noteq> dev ?w') \<longrightarrow>
        intfs (exec (concat (replicate k round)) ?w') = intfs ?w')"
    by (rule Suc.IH[OF p])
  have e: "exec (concat (replicate (Suc k) round)) w = exec (concat (replicate k round)) ?w'"
    by (simp add: exec_append)
  have f: "updates ?w' = updates w + 1" "max_updates ?w' = max_updates w"
    "length (calls ?w') = length (calls w) + 1" "dev ?w' = dev w" "intfs ?w' = X"
    by (simp_all add: r)
  show ?case
    unfolding e using ih nm f by auto
qed

lemma exec_rounds_done:
  assumes "pc w = L78" and "updates w = 0" and "max_updates w = N"
    and "latency w \<noteq> []" and "start_time w = Some t"
    and "nameToNode w (host_name w) = Some il"
  shows "pc (exec (concat (replicate N round) @ [Loop]) w) = Done \<and>
     updates (exec (concat (replicate N round) @ [Loop]) w) = N \<and>
     length (calls (exec (concat (replicate N round) @ [Loop]) w)) = length (calls w) + N \<and>
     ((\<forall>i\<in>set il. intf_link (intfs w i) = None \<or> intf_name (intfs w i) \<noteq> dev w) \<longrightarrow>
        intfs (exec (concat (replicate N round) @ [Loop]) w) = intfs w)"
proof -
  let ?w' = "exec (concat (replicate N round)) w"
  have le: "updates w + N \<le> max_updates w" using assms(2,3) by simp
  have r: "pc ?w' = L78" "updates ?w' = updates w + N" "max_updates ?w' = max_updates w"
    "length (calls ?w') = length (calls w) + N"
    "(\<forall>i\<in>set il. intf_link (intfs w i) = None \<or> intf_name (intfs w i) \<noteq> dev w) \<longrightarrow>
        intfs ?w' = intfs w"
    using exec_rounds[OF assms(1) le assms(4,5,6)] by blast+
  have "exec (concat (replicate N round) @ [Loop]) w = thread_step ?w'"
    by (simp add: exec_append exec_Cons exec_Nil)
  also have "\<dots> = ?w'\<lparr>pc := Done\<rparr>"
    using r(1,2,3) assms(2,3) by (simp add: thread_step_L78)
  finally have e: "exec (concat (replicate N round) @ [Loop]) w = ?w'\<lparr>pc := Done\<rparr>" .
  show ?thesis unfolding e using r assms(2) by simp
qed

lemma calls_thread_step:
  assumes "loop_inv N b w"
  shows "(pc w = L75 \<longrightarrow> calls (thread_step w) = calls w @ [(100, 100, 0)]) \<and>
         (pc w \<noteq> L75 \<longrightarrow> (\<exists>ys. calls (thread_step w) = calls w @ ys)) \<and>
         pc (thread_step w) \<noteq> L75"
proof -
  from assms have st: "static_ok w" by (simp add: loop_inv_def)
  then obtain t il where t: "start_time w = Some t" and il: "nameToNode w (host_name w) = Some il"
    and ne: "latency w \<noteq> []"
    by (auto simp: static_ok_def)
  show ?thesis
  proof (cases "pc w")
    case L_run
    then show ?thesis using assms by (simp add: loop_inv_def)
  next
    case L75
    then show ?thesis using thread_step_L75[OF L75 il] by simp
  next
    case L78
    then show ?thesis by (simp add: thread_step_L78)
  next
    case L79
    then show ?thesis by (simp add: thread_step_L79)
  next
    case L80
    obtain d where "thread_step w = w\<lparr>reads := Suc (reads w), delay := d, pc := L81\<rparr>"
      using thread_step_L80[OF L80 ne t] by blast
    then show ?thesis using L80 by simp
  next
    case L81
    then show ?thesis using thread_step_L81[OF L81 il] by simp
  next
    case L82
    then show ?thesis by (simp add: thread_step_L82)
  next
    case L83
    then show ?thesis by (simp add: thread_step_L83)
  next
    case Done
    then show ?thesis by (simp add: thread_step_Done)
  next
    case (Crashed e)
    then show ?thesis using assms by (simp add: loop_inv_def)
  qed
qed

lemma baseline_first_act:
  assumes "loop_inv N b w" and "baseline_first c0 w"
  shows "baseline_first c0 (act a w)"
proof (cases a)
  case Fire
  then show ?thesis using assms(2) by (simp add: baseline_first_def)
next
  case Loop
  have c: "pc w = L75 \<longrightarrow> calls (thread_step w) = calls w @ [(100, 100, 0)]"
    "pc w \<noteq> L75 \<longrightarrow> (\<exists>ys. calls (thread_step w) = calls w @ ys)"
    "pc (thread_step w) \<noteq> L75"
    using calls_thread_step[OF assms(1)] by blast+
  show ?thesis
  proof (cases "pc w = L75")
    case True
    then show ?thesis using c assms(2) Loop by (simp add: baseline_first_def)
  next
    case False
    then obtain dyn where d: "calls w = c0 @ (100, 100, 0) # dyn"
      using assms(2) by (auto simp: baseline_first_def)
    obtain ys where "calls (thread_step w) = calls w @ ys" using c(2) False by blast
    then have "calls (thread_step w) = c0 @ (100, 100, 0) # (dyn @ ys)" using d by simp
    then show ?thesis using c(3) Loop by (simp add: baseline_first_def)
  qed
qed

lemma invariants_exec:
  assumes "loop_inv N b w" and "baseline_first c0 w"
  shows "loop_inv N b (exec sch w) \<and> baseline_first c0 (exec sch w)"
  using assms
proof (induction sch arbitrary: w)
  case Nil
  then show ?case by (simp add: exec_Nil)
next
  case (Cons a sch)
  have "loop_inv N b (act a w)" using Cons.prems(1) by (rule loop_inv_act)
  moreover have "baseline_first c0 (act a w)" using Cons.prems by (rule baseline_first_act)
  ultimately show ?case using Cons.IH by (simp add: exec_Cons)
qed

lemma calls_grow_exec:
  assumes "loop_inv N b w" and "pc w \<noteq> L75"
  shows "\<exists>ys. calls (exec sch w) = calls w @ ys"
  using assms
proof (induction sch arbitrary: w)
  case Nil
  then show ?case by (simp add: exec_Nil)
next
  case (Cons a sch)
  have i: "loop_inv N b (act a w)" using Cons.prems(1) by (rule loop_inv_act)
  have g: "(\<exists>ys. calls (act a w) = calls w @ ys) \<and> pc (act a w) \<noteq> L75"
  proof (cases a)
    case Fire
    then show ?thesis using Cons.prems(2) by simp
  next
    case Loop
    then show ?thesis using calls_thread_step[OF Cons.prems(1)] Cons.prems(2) by simp
  qed
  then obtain ys where ys: "calls (act a w) = calls w @ ys" by blast
  obtain zs where "calls (exec sch (act a w)) = calls (act a w) @ zs"
    using Cons.IH[OF i] g by blast
  then have "calls (exec (a # sch) w) = calls w @ (ys @ zs)" using ys by (simp add: exec_Cons)
  then show ?case by blast
qed

lemma loop_inv_Done:
  "loop_inv N b w \<Longrightarrow> pc w = Done \<Longrightarrow> length (calls w) = b + N \<and> updates w = N"
  by (simp add: loop_inv_def)

lemma bounded_from_loop_head:
  assumes "pc w = L78" "updates w = 0" "max_updates w = N"
    and "latency w \<noteq> []" "start_time w = Some t" "nameToNode w (host_name w) = Some il"
  shows "(\<forall>sch. \<exists>dyn. calls (exec sch w) = calls w @ dyn \<and> length dyn \<le> N \<and>
            (pc (exec sch w) = Done \<longrightarrow> length dyn = N \<and>
               (\<forall>more. pc (exec more (exec sch w)) = Done \<and>
                       calls (exec more (exec sch w)) = calls (exec sch w)))) \<and>
         pc (exec (concat (replicate N round) @ [Loop]) w) = Done"
proof -
  have inv: "loop_inv N (length (calls w)) w"
    using assms by (simp add: loop_inv_def static_ok_def)
  have "\<exists>dyn. calls (exec sch w) = calls w @ dyn \<and> length dyn \<le> N \<and>
            (pc (exec sch w) = Done \<longrightarrow> length dyn = N \<and>
               (\<forall>more. pc (exec more (exec sch w)) = Done \<and>
                       calls (exec more (exec sch w)) = calls (exec sch w)))" for sch
  proof -
    have i: "loop_inv N (length (calls w)) (exec sch w)" using inv by (rule loop_inv_exec)
    obtain dyn where d: "calls (exec sch w) = calls w @ dyn"
      using calls_grow_exec[OF inv, of sch] assms(1) by auto
    have "length (calls (exec sch w)) \<le> length (calls w) + N"
      using i by (rule loop_inv_calls_bound)
    then have le: "length dyn \<le> N" using d by simp
    have "pc (exec sch w) = Done \<longrightarrow> length dyn = N \<and>
               (\<forall>more. pc (exec more (exec sch w)) = Done \<and>
                       calls (exec more (exec sch w)) = calls (exec sch w))"
    proof
      assume dn: "pc (exec sch w) = Done"
      have "length (calls (exec sch w)) = length (calls w) + N"
        using loop_inv_Done[OF i dn] by simp
      then have "length dyn = N" using d by simp
      then show "length dyn = N \<and>
               (\<forall>more. pc (exec more (exec sch w)) = Done \<and>
                       calls (exec more (exec sch w)) = calls (exec sch w))"
        using done_exec[OF dn] by simp
    qed
    with d le show ?thesis by blast
  qed
  moreover have "pc (exec (concat (replicate N round) @ [Loop]) w) = Done"
    using exec_rounds_done[OF assms] by simp
  ultimately show ?thesis by blast
qed

subsection \<open>Coalescing of ticks\<close>

lemma fires_absorbed:
  "update_event w \<Longrightarrow> exec (replicate n Fire) w = w"
proof (induction n)
  case 0
  show ?case by (simp add: exec_Nil)
next
  case (Suc n)
  have e: "w\<lparr>update_event := True\<rparr> = w" using Suc.prems by (cases w) simp
  have "exec (replicate (Suc n) Fire) w = exec (replicate n Fire) (w\<lparr>update_event := True\<rparr>)"
    by (simp add: exec_Cons)
  also have "\<dots> = exec (replicate n Fire) w" by (simp only: e)
  also have "\<dots> = w" using Suc by simp
  finally show ?case .
qed

lemma fires_set:
  "exec (replicate (Suc n) Fire) w = w\<lparr>update_event := True\<rparr>"
proof -
  have "exec (replicate (Suc n) Fire) w = exec (replicate n Fire) (w\<lparr>update_event := True\<rparr>)"
    by (simp add: exec_Cons)
  also have "\<dots> = w\<lparr>update_event := True\<rparr>" by (rule fires_absorbed) simp
  finally show ?thesis .
qed

text \<open>
  C5. \<^verbatim>\<open>update_event\<close> is one flag, so at most one tick is pending: setting it twice
  is setting it once. For a loop waiting at line 79, any number of firings before the
  wait returns (at least one), between the wait and the selection, between the selection
  and the Configurator call, and between that call and \<^verbatim>\<open>update_event.clear()\<close>,
  give one pass through the body: one Configurator call, one increment of
  \<^verbatim>\<open>updates\<close>, and a cleared flag. With the flag cleared the loop stays at line 79.
\<close>

theorem ticks_coalesce:
  assumes pc: "pc w = L79" and ne: "latency w \<noteq> []" and st: "start_time w = Some t"
    and il: "nameToNode w (host_name w) = Some il"
  shows "(\<exists>d X. exec (replicate (Suc a) Fire @ Loop # replicate b Fire @ Loop #
                   replicate c Fire @ Loop # replicate e Fire @ [Loop, Loop]) w =
            w\<lparr>reads := Suc (reads w), update_event := False, intfs := X,
              updates := updates w + 1, delay := d, calls := calls w @ [(d, 100, 0)],
              pc := L78\<rparr>) \<and>
         act Fire (act Fire w) = act Fire w \<and>
         (\<not> update_event w \<longrightarrow> thread_step w = w)"
proof -
  let ?w1 = "w\<lparr>update_event := True\<rparr>"
  let ?w2 = "?w1\<lparr>pc := L80\<rparr>"
  have f1: "exec (replicate (Suc a) Fire) w = ?w1" by (rule fires_set)
  have s2: "thread_step ?w1 = ?w2" using pc by (simp add: thread_step_L79)
  have f2: "exec (replicate b Fire) ?w2 = ?w2" by (rule fires_absorbed) simp
  obtain d where s3: "thread_step ?w2 = ?w2\<lparr>reads := Suc (reads ?w2), delay := d, pc := L81\<rparr>"
    using thread_step_L80[of ?w2 t] ne st by auto
  let ?w3 = "?w2\<lparr>reads := Suc (reads ?w2), delay := d, pc := L81\<rparr>"
  have f3: "exec (replicate c Fire) ?w3 = ?w3" by (rule fires_absorbed) simp
  let ?X = "intfs (fold (configure_intf d 0) il ?w3)"
  let ?w4 = "?w3\<lparr>intfs := ?X, calls := calls ?w3 @ [(d, 100, 0)], pc := L82\<rparr>"
  have s4: "thread_step ?w3 = ?w4" using thread_step_L81[of ?w3 il] il by simp
  have f4: "exec (replicate e Fire) ?w4 = ?w4" by (rule fires_absorbed) simp
  let ?w5 = "?w4\<lparr>update_event := False, pc := L83\<rparr>"
  have s5: "thread_step ?w4 = ?w5" by (simp add: thread_step_L82)
  let ?w6 = "?w5\<lparr>updates := updates ?w5 + 1, pc := L78\<rparr>"
  have s6: "thread_step ?w5 = ?w6" by (simp add: thread_step_L83)
  have "exec (replicate (Suc a) Fire @ Loop # replicate b Fire @ Loop #
                   replicate c Fire @ Loop # replicate e Fire @ [Loop, Loop]) w = ?w6"
    by (simp only: exec_append exec_Cons exec_Nil act.simps f1 s2 f2 s3 f3 s4 f4 s5 s6)
  also have "?w6 = w\<lparr>reads := Suc (reads w), update_event := False, intfs := ?X,
              updates := updates w + 1, delay := d, calls := calls w @ [(d, 100, 0)],
              pc := L78\<rparr>" by simp
  finally have main: "\<exists>d X. exec (replicate (Suc a) Fire @ Loop # replicate b Fire @ Loop #
                   replicate c Fire @ Loop # replicate e Fire @ [Loop, Loop]) w =
            w\<lparr>reads := Suc (reads w), update_event := False, intfs := X,
              updates := updates w + 1, delay := d, calls := calls w @ [(d, 100, 0)],
              pc := L78\<rparr>" by blast
  have idem: "act Fire (act Fire w) = act Fire w" by simp
  have blocked: "\<not> update_event w \<longrightarrow> thread_step w = w" using pc by (simp add: thread_step_L79)
  from main idem blocked show ?thesis by blast
qed

theorem ticks_coalesce_witness:
  "pc (bent_pipe\<lparr>pc := L79\<rparr>) = L79 \<and> latency (bent_pipe\<lparr>pc := L79\<rparr>) \<noteq> [] \<and>
   start_time (bent_pipe\<lparr>pc := L79\<rparr>) = Some 0 \<and>
   nameToNode (bent_pipe\<lparr>pc := L79\<rparr>) (host_name (bent_pipe\<lparr>pc := L79\<rparr>)) = Some [1, 2] \<and>
   \<not> update_event (bent_pipe\<lparr>pc := L79\<rparr>) \<and>
   thread_step (bent_pipe\<lparr>pc := L79\<rparr>) = bent_pipe\<lparr>pc := L79\<rparr> \<and>
   (\<exists>d X. exec (replicate (Suc 0) Fire @ Loop # replicate 1 Fire @ Loop #
                   replicate 0 Fire @ Loop # replicate 0 Fire @ [Loop, Loop]) (bent_pipe\<lparr>pc := L79\<rparr>) =
            bent_pipe\<lparr>pc := L79, reads := Suc (reads (bent_pipe\<lparr>pc := L79\<rparr>)), update_event := False, intfs := X,
              updates := updates (bent_pipe\<lparr>pc := L79\<rparr>) + 1, delay := d,
              calls := calls (bent_pipe\<lparr>pc := L79\<rparr>) @ [(d, 100, 0)], pc := L78\<rparr>)"
proof -
  let ?w = "bent_pipe\<lparr>pc := L79\<rparr>"
  have h1: "pc ?w = L79" by simp
  have h2: "latency ?w \<noteq> []" by (simp add: bent_pipe_def)
  have h3: "start_time ?w = Some 0" by (simp add: bent_pipe_def)
  have h4: "nameToNode ?w (host_name ?w) = Some [1, 2]" by (simp add: bent_pipe_def)
  have h5: "\<not> update_event ?w" by (simp add: bent_pipe_def)
  show ?thesis
    using ticks_coalesce[OF h1 h2 h3 h4, of 0 1 0 0] h1 h2 h3 h4 h5 by blast
qed

subsection \<open>Updates without effect\<close>

text \<open>
  C10. In a pass through the loop body (one tick, lines 78 to 83) \<^verbatim>\<open>updates\<close> grows by
  one and the tick is cleared, whether or not the Configurator call changed an
  interface. When no interface of the host has a link and the name \<^verbatim>\<open>dev\<close>, \<open>N\<close> passes
  take the loop from \<^verbatim>\<open>updates = 0\<close> to its end with \<open>N\<close> calls logged and every
  interface as it was.
\<close>

theorem noop_updates_still_count:
  assumes "pc w = L78" and "updates w = 0" and "max_updates w = N"
    and "latency w \<noteq> []" and "start_time w = Some t"
    and "nameToNode w (host_name w) = Some il"
    and "\<forall>i\<in>set il. intf_link (intfs w i) = None \<or> intf_name (intfs w i) \<noteq> dev w"
  shows "pc (exec (concat (replicate N round) @ [Loop]) w) = Done \<and>
     updates (exec (concat (replicate N round) @ [Loop]) w) = N \<and>
     length (calls (exec (concat (replicate N round) @ [Loop]) w)) = length (calls w) + N \<and>
     intfs (exec (concat (replicate N round) @ [Loop]) w) = intfs w \<and>
     (0 < N \<longrightarrow> updates (exec round w) = 1 \<and> \<not> update_event (exec round w) \<and>
        intfs (exec round w) = intfs w \<and> length (calls (exec round w)) = length (calls w) + 1)"
proof -
  have a: "pc (exec (concat (replicate N round) @ [Loop]) w) = Done \<and>
     updates (exec (concat (replicate N round) @ [Loop]) w) = N \<and>
     length (calls (exec (concat (replicate N round) @ [Loop]) w)) = length (calls w) + N \<and>
     intfs (exec (concat (replicate N round) @ [Loop]) w) = intfs w"
    using exec_rounds_done[OF assms(1-6)] assms(7) by blast
  have b: "0 < N \<longrightarrow> updates (exec round w) = 1 \<and> \<not> update_event (exec round w) \<and>
        intfs (exec round w) = intfs w \<and> length (calls (exec round w)) = length (calls w) + 1"
  proof
    assume "0 < N"
    then have lt: "updates w < max_updates w" using assms(2,3) by simp
    obtain d X where r: "exec round w =
      w\<lparr>reads := Suc (reads w), update_event := False, intfs := X, updates := updates w + 1,
        delay := d, calls := calls w @ [(d, 100, 0)]\<rparr>" and x: "X = intfs w"
      using exec_round[OF assms(1) lt assms(4,5,6)] assms(7) by blast
    show "updates (exec round w) = 1 \<and> \<not> update_event (exec round w) \<and>
        intfs (exec round w) = intfs w \<and> length (calls (exec round w)) = length (calls w) + 1"
      using assms(2) x by (simp add: r)
  qed
  from a b show ?thesis by blast
qed

theorem noop_updates_still_count_witness:
  "pc (bent_pipe\<lparr>dev := ''router-eth9''\<rparr>) = L78 \<and>
   updates (bent_pipe\<lparr>dev := ''router-eth9''\<rparr>) = 0 \<and>
   max_updates (bent_pipe\<lparr>dev := ''router-eth9''\<rparr>) = 10 \<and>
   latency (bent_pipe\<lparr>dev := ''router-eth9''\<rparr>) \<noteq> [] \<and>
   start_time (bent_pipe\<lparr>dev := ''router-eth9''\<rparr>) = Some 0 \<and>
   nameToNode (bent_pipe\<lparr>dev := ''router-eth9''\<rparr>) (host_name (bent_pipe\<lparr>dev := ''router-eth9''\<rparr>))
     = Some [1, 2] \<and>
   intf_name (intfs (bent_pipe\<lparr>dev := ''router-eth9''\<rparr>) 1) \<noteq> dev (bent_pipe\<lparr>dev := ''router-eth9''\<rparr>) \<and>
   intf_name (intfs (bent_pipe\<lparr>dev := ''router-eth9''\<rparr>) 2) \<noteq> dev (bent_pipe\<lparr>dev := ''router-eth9''\<rparr>) \<and>
   (0::nat) < 10 \<and>
   pc (exec (concat (replicate 10 round) @ [Loop]) (bent_pipe\<lparr>dev := ''router-eth9''\<rparr>)) = Done \<and>
   updates (exec (concat (replicate 10 round) @ [Loop]) (bent_pipe\<lparr>dev := ''router-eth9''\<rparr>)) = 10 \<and>
   intfs (exec (concat (replicate 10 round) @ [Loop]) (bent_pipe\<lparr>dev := ''router-eth9''\<rparr>)) =
     intfs (bent_pipe\<lparr>dev := ''router-eth9''\<rparr>) \<and>
   updates (exec round (bent_pipe\<lparr>dev := ''router-eth9''\<rparr>)) = 1"
proof -
  let ?w = "bent_pipe\<lparr>dev := ''router-eth9''\<rparr>"
  have h1: "pc ?w = L78" by (simp add: bent_pipe_def)
  have h2: "updates ?w = 0" by (simp add: bent_pipe_def)
  have h3: "max_updates ?w = 10" by (simp add: bent_pipe_def)
  have h4: "latency ?w \<noteq> []" by (simp add: bent_pipe_def)
  have h5: "start_time ?w = Some 0" by (simp add: bent_pipe_def)
  have h6: "nameToNode ?w (host_name ?w) = Some [1, 2]" by (simp add: bent_pipe_def)
  have h7: "\<forall>i\<in>set [1, 2]. intf_link (intfs ?w i) = None \<or> intf_name (intfs ?w i) \<noteq> dev ?w"
    by (simp add: bent_pipe_def bent_pipe_intfs_def)
  have h8: "(0::nat) < 10" by simp
  have h9: "intf_name (intfs ?w 1) \<noteq> dev ?w" "intf_name (intfs ?w 2) \<noteq> dev ?w"
    by (simp_all add: bent_pipe_def bent_pipe_intfs_def)
  show ?thesis
    using noop_updates_still_count[OF h1 h2 h3 h4 h5 h6 h7] h1 h2 h3 h4 h5 h6 h8 h9 by blast
qed

subsection \<open>The Link Configurator: unresolved device, and bandwidth\<close>

text \<open>
  C9. When the host name resolves and no interface of the host has a link and the name
  \<^verbatim>\<open>dev\<close>, \<^verbatim>\<open>configureStaticNetworkConditions\<close> raises nothing and leaves the state as
  it was, the log of calls apart.
\<close>

theorem unresolved_device_is_silent_noop:
  assumes "nameToNode w (host_name w) = Some il"
    and "\<forall>i\<in>set il. intf_link (intfs w i) = None \<or> intf_name (intfs w i) \<noteq> dev w"
  shows "configureStaticNetworkConditions d bw loss w =
     Inr (w\<lparr>calls := calls w @ [(d, bw, loss)]\<rparr>)"
  using assms
  by (simp add: configureStaticNetworkConditions_def fold_configure_intf_no_match)

theorem unresolved_device_is_silent_noop_witness:
  "nameToNode (bent_pipe\<lparr>dev := ''router-eth9''\<rparr>) (host_name (bent_pipe\<lparr>dev := ''router-eth9''\<rparr>))
     = Some [1, 2] \<and>
   intf_name (intfs (bent_pipe\<lparr>dev := ''router-eth9''\<rparr>) 1) \<noteq> dev (bent_pipe\<lparr>dev := ''router-eth9''\<rparr>) \<and>
   intf_name (intfs (bent_pipe\<lparr>dev := ''router-eth9''\<rparr>) 2) \<noteq> dev (bent_pipe\<lparr>dev := ''router-eth9''\<rparr>) \<and>
   configureStaticNetworkConditions 150 100 0 (bent_pipe\<lparr>dev := ''router-eth9''\<rparr>) =
     Inr (bent_pipe\<lparr>dev := ''router-eth9'',
            calls := calls (bent_pipe\<lparr>dev := ''router-eth9''\<rparr>) @ [(150, 100, 0)]\<rparr>)"
proof -
  let ?w = "bent_pipe\<lparr>dev := ''router-eth9''\<rparr>"
  have h6: "nameToNode ?w (host_name ?w) = Some [1, 2]" by (simp add: bent_pipe_def)
  have h7: "\<forall>i\<in>set [1, 2]. intf_link (intfs ?w i) = None \<or> intf_name (intfs ?w i) \<noteq> dev ?w"
    by (simp add: bent_pipe_def bent_pipe_intfs_def)
  have h9: "intf_name (intfs ?w 1) \<noteq> dev ?w" "intf_name (intfs ?w 2) \<noteq> dev ?w"
    by (simp_all add: bent_pipe_def bent_pipe_intfs_def)
  show ?thesis
    using unresolved_device_is_silent_noop[OF h6 h7, of 150 100 0] h6 h9 by simp
qed

text \<open>
  C8, at a concrete call. On the router to pop link of the topology,
  \<^verbatim>\<open>configureStaticNetworkConditions(delay=100, bw=50, loss=0)\<close> gives both ends the
  delay \<^verbatim>\<open>100ms\<close> and the loss 0, and passes no bandwidth: the \<^verbatim>\<open>bw\<close> argument is
  dropped, and a call with another \<^verbatim>\<open>bw\<close> configures the interfaces alike.
\<close>

theorem configurator_drops_bandwidth:
  "\<exists>w' w''. configureStaticNetworkConditions 100 50 0 bent_pipe = Inr w' \<and>
     intf_tc (intfs w' 2) = \<lparr>tc_bw = None, tc_delay = Some ''100ms'', tc_loss = Some 0\<rparr> \<and>
     intf_tc (intfs w' 3) = \<lparr>tc_bw = None, tc_delay = Some ''100ms'', tc_loss = Some 0\<rparr> \<and>
     configureStaticNetworkConditions 100 100 0 bent_pipe = Inr w'' \<and>
     intfs w'' = intfs w'"
  by (simp add: configureStaticNetworkConditions_def bent_pipe_def bent_pipe_intfs_def
      configure_intf_def intf_config_def delay_100ms unlinked_def)

subsection \<open>Ticks and dynamic calls\<close>

lemma tick_inv_thread_step:
  assumes "loop_inv N b w" and "tick_inv b k w"
  shows "tick_inv b k (thread_step w)"
proof -
  from assms(1) have st: "static_ok w" by (simp add: loop_inv_def)
  then obtain t il where t: "start_time w = Some t" and il: "nameToNode w (host_name w) = Some il"
    and ne: "latency w \<noteq> []"
    by (auto simp: static_ok_def)
  show ?thesis
  proof (cases "pc w")
    case L_run
    then show ?thesis using assms(1) by (simp add: loop_inv_def)
  next
    case L75
    then show ?thesis using assms thread_step_L75[OF L75 il]
      by (simp add: loop_inv_def tick_inv_def pending_def)
  next
    case L78
    then show ?thesis using assms(2)
      by (simp add: thread_step_L78 tick_inv_def pending_def)
  next
    case L79
    then show ?thesis using assms(2)
      by (auto simp: thread_step_L79 tick_inv_def pending_def split: if_splits)
  next
    case L80
    obtain d where "thread_step w = w\<lparr>reads := Suc (reads w), delay := d, pc := L81\<rparr>"
      using thread_step_L80[OF L80 ne t] by blast
    then show ?thesis using assms(2) L80 by (simp add: tick_inv_def)
  next
    case L81
    then show ?thesis using assms(2) thread_step_L81[OF L81 il]
      by (simp add: tick_inv_def)
  next
    case L82
    then show ?thesis using assms(2) by (simp add: thread_step_L82 tick_inv_def pending_def)
  next
    case L83
    then show ?thesis using assms(2) by (simp add: thread_step_L83 tick_inv_def pending_def)
  next
    case Done
    then show ?thesis using assms(2) by (simp add: thread_step_Done)
  next
    case (Crashed e)
    then show ?thesis using assms(1) by (simp add: loop_inv_def)
  qed
qed

lemma tick_inv_fire:
  assumes "tick_inv b k w"
  shows "tick_inv b (Suc k) (act Fire w)"
  using assms by (cases "pc w") (auto simp: tick_inv_def pending_def)

lemma tick_inv_exec:
  assumes "loop_inv N b w" and "tick_inv b k w"
  shows "tick_inv b (k + count_list sch Fire) (exec sch w)"
  using assms
proof (induction sch arbitrary: w k)
  case Nil
  then show ?case by (simp add: exec_Nil)
next
  case (Cons a sch)
  have i: "loop_inv N b (act a w)" using Cons.prems(1) by (rule loop_inv_act)
  show ?case
  proof (cases a)
    case Fire
    have "tick_inv b (Suc k) (act Fire w)" using Cons.prems(2) by (rule tick_inv_fire)
    then have "tick_inv b (Suc k) (act a w)" using Fire by simp
    from Cons.IH[OF i this] show ?thesis using Fire by (simp add: exec_Cons)
  next
    case Loop
    have "tick_inv b k (act a w)"
      using tick_inv_thread_step[OF Cons.prems] Loop by simp
    from Cons.IH[OF i this] show ?thesis using Loop by (simp add: exec_Cons)
  qed
qed

lemma tick_inv_calls_bound:
  assumes "loop_inv N b w" and "tick_inv b k w" and "pc w \<noteq> L75"
  shows "length (calls w) \<le> b + k"
  using assms by (cases "pc w") (auto simp: tick_inv_def loop_inv_def)

lemma crashed_exec:
  "pc w = Crashed e \<Longrightarrow> pc (exec sch w) = Crashed e \<and> calls (exec sch w) = calls w"
proof (induction sch arbitrary: w)
  case Nil
  then show ?case by (simp add: exec_Nil)
next
  case (Cons a sch)
  have "pc (act a w) = Crashed e \<and> calls (act a w) = calls w"
    using Cons.prems by (cases a) (simp_all add: thread_step_def)
  then show ?case using Cons.IH[of "act a w"] by (simp add: exec_Cons)
qed

lemma empty_trace_crash:
  assumes pc: "pc w = L75" and em: "latency w = []" and st: "start_time w = Some t"
    and il: "nameToNode w (host_name w) = Some il"
  shows "pc (exec (Loop # Fire # Loop # Loop # Loop # sch) w) = Crashed ValueError \<and>
         calls (exec (Loop # Fire # Loop # Loop # Loop # sch) w) = calls w @ [(100, 100, 0)]"
proof -
  let ?w1 = "w\<lparr>intfs := intfs (fold (configure_intf 100 0) il w),
     calls := calls w @ [(100, 100, 0)], max_updates := 10, updates := 0, pc := L78\<rparr>"
  have s1: "thread_step w = ?w1" using thread_step_L75[OF pc il] .
  let ?w2 = "?w1\<lparr>update_event := True\<rparr>"
  let ?w3 = "?w2\<lparr>pc := L79\<rparr>"
  have s3: "thread_step ?w2 = ?w3" by (simp add: thread_step_L78)
  let ?w4 = "?w3\<lparr>pc := L80\<rparr>"
  have s4: "thread_step ?w3 = ?w4" by (simp add: thread_step_L79)
  have g: "get_closest_latency ?w4 = Inl ValueError"
    using em st by (simp add: get_closest_latency_empty)
  let ?w5 = "?w4\<lparr>pc := Crashed ValueError\<rparr>"
  have s5: "thread_step ?w4 = ?w5" using g by (simp add: thread_step_def)
  have e: "exec (Loop # Fire # Loop # Loop # Loop # sch) w = exec sch ?w5"
    by (simp only: exec_Cons act.simps s1 s3 s4 s5)
  have "pc ?w5 = Crashed ValueError" by simp
  from crashed_exec[OF this, of sch] show ?thesis unfolding e by simp
qed


lemma ticks_from_loop_head:
  assumes "pc w = L78" "updates w = 0" "max_updates w = N"
    and "latency w \<noteq> []" "start_time w = Some t" "nameToNode w (host_name w) = Some il"
  shows "length (calls (exec sch w)) \<le> length (calls w) + (pending w + count_list sch Fire)"
proof -
  have inv: "loop_inv N (length (calls w)) w"
    using assms by (simp add: loop_inv_def static_ok_def)
  have ti: "tick_inv (length (calls w)) (pending w) w"
    using assms(1) by (simp add: tick_inv_def)
  have i: "loop_inv N (length (calls w)) (exec sch w)" using inv by (rule loop_inv_exec)
  have t: "tick_inv (length (calls w)) (pending w + count_list sch Fire) (exec sch w)"
    using inv ti by (rule tick_inv_exec)
  obtain ys where g: "calls (exec sch w) = calls w @ ys"
    using calls_grow_exec[OF inv, of sch] assms(1) by auto
  have "pc (exec sch w) \<noteq> L75"
  proof
    assume "pc (exec sch w) = L75"
    then have "length (calls (exec sch w)) + 1 = length (calls w)"
      using i by (simp add: loop_inv_def)
    then show False using g by simp
  qed
  with i t show ?thesis by (rule tick_inv_calls_bound)
qed

subsection \<open>Bounded termination\<close>

text \<open>
  C2, with the conditions it needs. From the entry of \<^verbatim>\<open>configureNetworkConditions\<close>
  (line 75), with a non-empty trace, the start time set and a host name that resolves,
  and whatever the interleaving of trigger firings and loop steps: the log of
  Configurator calls is either unchanged (the baseline call has not been made yet) or
  the old log, then the one baseline call \<open>(100, 100, 0)\<close>, then the dynamic calls, of
  which there are at most 10 and at most one for each tick signalled (the firings of the
  trigger in the run, and the tick that was pending at the start, if any); when the loop
  has ended there are exactly 10 dynamic calls, and no further firing or step changes the
  log or restarts the loop. Ten rounds of one firing and one pass through the body end
  the loop. The same holds for any bound \<open>N\<close> in place of 10, from the head of the loop.
\<close>

theorem scheduler_loop_bounded:
  assumes pc: "pc w = L75" and ne: "latency w \<noteq> []" and st: "start_time w = Some t"
    and il: "nameToNode w (host_name w) = Some il"
  shows "(\<forall>sch. (pc (exec sch w) = L75 \<and> calls (exec sch w) = calls w) \<or>
            (\<exists>dyn. calls (exec sch w) = calls w @ (100, 100, 0) # dyn \<and> length dyn \<le> 10 \<and>
               length dyn \<le> pending w + count_list sch Fire \<and>
               (pc (exec sch w) = Done \<longrightarrow> length dyn = 10 \<and>
                  (\<forall>more. pc (exec more (exec sch w)) = Done \<and>
                          calls (exec more (exec sch w)) = calls (exec sch w))))) \<and>
         pc (exec (Loop # concat (replicate 10 round) @ [Loop]) w) = Done \<and>
         (\<forall>w' N t' il'.
            pc w' = L78 \<and> updates w' = 0 \<and> max_updates w' = N \<and> latency w' \<noteq> [] \<and>
            start_time w' = Some t' \<and> nameToNode w' (host_name w') = Some il' \<longrightarrow>
            (\<forall>sch. \<exists>dyn. calls (exec sch w') = calls w' @ dyn \<and> length dyn \<le> N \<and>
               length dyn \<le> pending w' + count_list sch Fire \<and>
               (pc (exec sch w') = Done \<longrightarrow> length dyn = N \<and>
                  (\<forall>more. pc (exec more (exec sch w')) = Done \<and>
                          calls (exec more (exec sch w')) = calls (exec sch w')))) \<and>
            pc (exec (concat (replicate N round) @ [Loop]) w') = Done)"
proof -
  have inv: "loop_inv 10 (length (calls w) + 1) w"
    using pc ne st il by (simp add: loop_inv_def static_ok_def)
  have bf: "baseline_first (calls w) w" using pc by (simp add: baseline_first_def)
  have ti: "tick_inv (length (calls w) + 1) (pending w) w"
    using pc by (simp add: tick_inv_def)
  have safety: "(pc (exec sch w) = L75 \<and> calls (exec sch w) = calls w) \<or>
            (\<exists>dyn. calls (exec sch w) = calls w @ (100, 100, 0) # dyn \<and> length dyn \<le> 10 \<and>
               length dyn \<le> pending w + count_list sch Fire \<and>
               (pc (exec sch w) = Done \<longrightarrow> length dyn = 10 \<and>
                  (\<forall>more. pc (exec more (exec sch w)) = Done \<and>
                          calls (exec more (exec sch w)) = calls (exec sch w))))" for sch
  proof (cases "pc (exec sch w) = L75")
    case True
    have "baseline_first (calls w) (exec sch w)" using invariants_exec[OF inv bf] by blast
    then show ?thesis using True by (simp add: baseline_first_def)
  next
    case False
    have i: "loop_inv 10 (length (calls w) + 1) (exec sch w)"
      using invariants_exec[OF inv bf] by blast
    have "baseline_first (calls w) (exec sch w)" using invariants_exec[OF inv bf] by blast
    then obtain dyn where d: "calls (exec sch w) = calls w @ (100, 100, 0) # dyn"
      using False by (auto simp: baseline_first_def)
    have "length (calls (exec sch w)) \<le> length (calls w) + 1 + 10"
      using i by (rule loop_inv_calls_bound)
    then have le: "length dyn \<le> 10" using d by simp
    have "tick_inv (length (calls w) + 1) (pending w + count_list sch Fire) (exec sch w)"
      using inv ti by (rule tick_inv_exec)
    with i have "length (calls (exec sch w)) \<le> length (calls w) + 1 + (pending w + count_list sch Fire)"
      using False by (rule tick_inv_calls_bound)
    then have tk: "length dyn \<le> pending w + count_list sch Fire" using d by simp
    have "pc (exec sch w) = Done \<longrightarrow> length dyn = 10 \<and>
                  (\<forall>more. pc (exec more (exec sch w)) = Done \<and>
                          calls (exec more (exec sch w)) = calls (exec sch w))"
    proof
      assume dn: "pc (exec sch w) = Done"
      have "length (calls (exec sch w)) = length (calls w) + 1 + 10"
        using loop_inv_Done[OF i dn] by simp
      then have "length dyn = 10" using d by simp
      then show "length dyn = 10 \<and>
                  (\<forall>more. pc (exec more (exec sch w)) = Done \<and>
                          calls (exec more (exec sch w)) = calls (exec sch w))"
        using done_exec[OF dn] by simp
    qed
    with d le tk show ?thesis by blast
  qed
  let ?w1 = "thread_step w"
  have w1: "?w1 = w\<lparr>intfs := intfs (fold (configure_intf 100 0) il w),
     calls := calls w @ [(100, 100, 0)], max_updates := 10, updates := 0, pc := L78\<rparr>"
    using thread_step_L75[OF pc il] .
  have p1: "pc ?w1 = L78" "updates ?w1 = 0" "max_updates ?w1 = 10" "latency ?w1 \<noteq> []"
    "start_time ?w1 = Some t" "nameToNode ?w1 (host_name ?w1) = Some il"
    using ne st il by (simp_all add: w1)
  have "pc (exec (concat (replicate 10 round) @ [Loop]) ?w1) = Done"
    using exec_rounds_done[OF p1] by simp
  then have live: "pc (exec (Loop # concat (replicate 10 round) @ [Loop]) w) = Done"
    by (simp add: exec_Cons)
  have general: "(\<forall>sch. \<exists>dyn. calls (exec sch w') = calls w' @ dyn \<and> length dyn \<le> N \<and>
               length dyn \<le> pending w' + count_list sch Fire \<and>
               (pc (exec sch w') = Done \<longrightarrow> length dyn = N \<and>
                  (\<forall>more. pc (exec more (exec sch w')) = Done \<and>
                          calls (exec more (exec sch w')) = calls (exec sch w')))) \<and>
            pc (exec (concat (replicate N round) @ [Loop]) w') = Done"
    if h: "pc w' = L78 \<and> updates w' = 0 \<and> max_updates w' = N \<and> latency w' \<noteq> [] \<and>
            start_time w' = Some t' \<and> nameToNode w' (host_name w') = Some il'"
    for w' N t' il'
  proof -
    have a: "pc w' = L78" "updates w' = 0" "max_updates w' = N" "latency w' \<noteq> []"
      "start_time w' = Some t'" "nameToNode w' (host_name w') = Some il'"
      using h by blast+
    have b: "(\<forall>sch. \<exists>dyn. calls (exec sch w') = calls w' @ dyn \<and> length dyn \<le> N \<and>
            (pc (exec sch w') = Done \<longrightarrow> length dyn = N \<and>
               (\<forall>more. pc (exec more (exec sch w')) = Done \<and>
                       calls (exec more (exec sch w')) = calls (exec sch w'))))"
      and l: "pc (exec (concat (replicate N round) @ [Loop]) w') = Done"
      using bounded_from_loop_head[OF a] by blast+
    have "\<exists>dyn. calls (exec sch w') = calls w' @ dyn \<and> length dyn \<le> N \<and>
               length dyn \<le> pending w' + count_list sch Fire \<and>
               (pc (exec sch w') = Done \<longrightarrow> length dyn = N \<and>
                  (\<forall>more. pc (exec more (exec sch w')) = Done \<and>
                          calls (exec more (exec sch w')) = calls (exec sch w')))" for sch
    proof -
      obtain dyn where d: "calls (exec sch w') = calls w' @ dyn" "length dyn \<le> N"
        "pc (exec sch w') = Done \<longrightarrow> length dyn = N \<and>
               (\<forall>more. pc (exec more (exec sch w')) = Done \<and>
                       calls (exec more (exec sch w')) = calls (exec sch w'))"
        using b by blast
      have "length (calls (exec sch w')) \<le> length (calls w') + (pending w' + count_list sch Fire)"
        using ticks_from_loop_head[OF a] .
      then have "length dyn \<le> pending w' + count_list sch Fire" using d(1) by simp
      with d show ?thesis by blast
    qed
    with l show ?thesis by blast
  qed
  from safety live general show ?thesis by blast
qed

theorem scheduler_loop_bounded_witness:
  "pc (bent_pipe\<lparr>pc := L75\<rparr>) = L75 \<and> latency (bent_pipe\<lparr>pc := L75\<rparr>) \<noteq> [] \<and>
   start_time (bent_pipe\<lparr>pc := L75\<rparr>) = Some 0 \<and>
   nameToNode (bent_pipe\<lparr>pc := L75\<rparr>) (host_name (bent_pipe\<lparr>pc := L75\<rparr>)) = Some [1, 2] \<and>
   pc (exec (Loop # concat (replicate 10 round) @ [Loop]) (bent_pipe\<lparr>pc := L75\<rparr>)) = Done \<and>
   pc bent_pipe = L78 \<and> updates bent_pipe = 0 \<and> max_updates bent_pipe = 10 \<and>
   latency bent_pipe \<noteq> [] \<and> start_time bent_pipe = Some 0 \<and>
   nameToNode bent_pipe (host_name bent_pipe) = Some [1, 2] \<and>
   pc (exec (concat (replicate 10 round) @ [Loop]) bent_pipe) = Done"
proof -
  let ?w = "bent_pipe\<lparr>pc := L75\<rparr>"
  have h1: "pc ?w = L75" by simp
  have h2: "latency ?w \<noteq> []" by (simp add: bent_pipe_def)
  have h3: "start_time ?w = Some 0" by (simp add: bent_pipe_def)
  have h4: "nameToNode ?w (host_name ?w) = Some [1, 2]" by (simp add: bent_pipe_def)
  have g: "pc bent_pipe = L78 \<and> updates bent_pipe = 0 \<and> max_updates bent_pipe = 10 \<and>
    latency bent_pipe \<noteq> [] \<and> start_time bent_pipe = Some 0 \<and>
    nameToNode bent_pipe (host_name bent_pipe) = Some [1, 2]"
    by (simp add: bent_pipe_def)
  show ?thesis
    using scheduler_loop_bounded[OF h1 h2 h3 h4] h1 h2 h3 h4 g by blast
qed

text \<open>
  The condition on the trace cannot be dropped. With the trace of a file that holds a
  header line only, the same run of ten rounds makes the baseline call and no dynamic
  call: at the first tick consumed \<^verbatim>\<open>min\<close> raises \<^verbatim>\<open>ValueError\<close> on the empty key
  list (line 71) and the thread ends there, never reaching the end of its loop.
\<close>

theorem header_only_run_makes_no_dynamic_call:
  "pc header_only_run = L75 \<and> latency header_only_run = [] \<and>
   start_time header_only_run = Some 0 \<and>
   nameToNode header_only_run (host_name header_only_run) = Some [1, 2] \<and>
   calls header_only_run = [] \<and>
   pc (exec (Loop # concat (replicate 10 round) @ [Loop]) header_only_run) = Crashed ValueError \<and>
   calls (exec (Loop # concat (replicate 10 round) @ [Loop]) header_only_run) = [(100, 100, 0)]"
proof -
  have h: "pc header_only_run = L75" "latency header_only_run = []"
    "start_time header_only_run = Some 0"
    "nameToNode header_only_run (host_name header_only_run) = Some [1, 2]"
    "calls header_only_run = []"
    by (simp_all add: header_only_run_def bent_pipe_def)
  have r: "replicate 10 round = round # replicate 9 round"
    by (simp add: numeral_eq_Suc)
  have s: "Loop # concat (replicate 10 round) @ [Loop] =
      Loop # Fire # Loop # Loop # Loop # ([Loop, Loop, Loop] @ concat (replicate 9 round) @ [Loop])"
    unfolding r by (simp add: round_def)
  show ?thesis
    unfolding s using empty_trace_crash[OF h(1,2,3,4)] h by simp
qed

subsection \<open>The Trace Store\<close>

lemma dict_setitem_nonempty: "dict_setitem k v d \<noteq> []"
  by (cases d) (auto split: if_splits)

lemma load_rows_empty_iff:
  "load_rows float rows data = Inr tr \<Longrightarrow> (tr = [] \<longleftrightarrow> rows = [] \<and> data = [])"
proof (induction rows arbitrary: data)
  case Nil
  then show ?case by auto
next
  case (Cons row rows)
  from Cons.prems obtain v k where
    r: "load_rows float rows (dict_setitem k v data) = Inr tr"
    by (auto split: sum.splits)
  from Cons.IH[OF r] show ?case by (simp add: dict_setitem_nonempty)
qed

lemma load_rows_isl:
  "isl (load_rows float rows data) \<longleftrightarrow>
     (\<exists>row\<in>set rows. isl (float_item float row 1) \<or> isl (float_item float row 2))"
proof (induction rows arbitrary: data)
  case Nil
  then show ?case by simp
next
  case (Cons row rows)
  show ?case
  proof (cases "float_item float row 2")
    case (Inl e)
    then show ?thesis by simp
  next
    case v: (Inr v)
    show ?thesis
    proof (cases "float_item float row 1")
      case (Inl e)
      then show ?thesis using v by simp
    next
      case (Inr k)
      then show ?thesis using v Cons.IH[of "dict_setitem k v data"] by simp
    qed
  qed
qed

lemma convert_rows_skips:
  "convert_rows strptime float lines (ts, rs, sk) =
     (ts @ map fst (List.map_filter (parse_line strptime float)
                      (filter (\<lambda>l. strip l \<noteq> []) lines)),
      rs @ map snd (List.map_filter (parse_line strptime float)
                      (filter (\<lambda>l. strip l \<noteq> []) lines)),
      sk @ map strip (filter (\<lambda>l. parse_line strptime float l = None)
                      (filter (\<lambda>l. strip l \<noteq> []) lines)))"
proof (induction lines arbitrary: ts rs sk)
  case Nil
  then show ?case by (simp add: List.map_filter_simps)
next
  case (Cons line lines)
  show ?case
  proof (cases "strip line = []")
    case True
    then show ?thesis using Cons.IH[of ts rs sk] by simp
  next
    case nb: False
    show ?thesis
    proof (cases "parse_line strptime float line")
      case None
      then show ?thesis using nb Cons.IH[of ts rs "sk @ [strip line]"]
        by (simp add: List.map_filter_simps)
    next
      case (Some p)
      obtain t r where p: "p = (t, r)" by (cases p)
      show ?thesis using nb Some p Cons.IH[of "ts @ [t]" "rs @ [r]" sk]
        by (simp add: List.map_filter_simps)
    qed
  qed
qed

lemmas float_decimal_eval =
  load_latency_trace_def float_item_def row_item_def float_decimal_def strip_def is_space_def
  unsigned_decimal_def is_digit_def digits_value_def

text \<open>
  C6. \<^verbatim>\<open>load_latency_trace\<close> never looks at the first row: the result is the same
  whatever that row is, also when it is styled as data. It fails exactly when some later
  row has a field 1 or a field 2 that is missing or that \<^verbatim>\<open>float\<close> rejects, so such a
  row is fatal and is not skipped. The converter, for its part, drops a line it cannot
  parse and goes on: its result holds the timestamps and values of exactly the lines that
  parse, in order, and the lines that do not are only reported.
\<close>

theorem load_is_strict_where_converter_skips:
  "load_latency_trace float (header # rows) = load_latency_trace float (header' # rows) \<and>
   (isl (load_latency_trace float (header # rows)) \<longleftrightarrow>
      (\<exists>row\<in>set rows. isl (float_item float row 1) \<or> isl (float_item float row 2))) \<and>
   (strip line \<noteq> [] \<and> parse_line strptime float line = None \<longrightarrow>
      convert_rows strptime float (line # lines) (ts, rs, sk) =
      convert_rows strptime float lines (ts, rs, sk @ [strip line])) \<and>
   convert_to_csv strptime float all_lines =
     (map fst (List.map_filter (parse_line strptime float)
                 (filter (\<lambda>l. strip l \<noteq> []) (drop 1 all_lines))),
      map snd (List.map_filter (parse_line strptime float)
                 (filter (\<lambda>l. strip l \<noteq> []) (drop 1 all_lines))),
      map strip (filter (\<lambda>l. parse_line strptime float l = None)
                 (filter (\<lambda>l. strip l \<noteq> []) (drop 1 all_lines))))"
proof -
  have a: "load_latency_trace float (header # rows) = load_latency_trace float (header' # rows)"
    by (simp add: load_latency_trace_def)
  have b: "isl (load_latency_trace float (header # rows)) \<longleftrightarrow>
      (\<exists>row\<in>set rows. isl (float_item float row 1) \<or> isl (float_item float row 2))"
    by (simp add: load_latency_trace_def load_rows_isl)
  have c: "strip line \<noteq> [] \<and> parse_line strptime float line = None \<longrightarrow>
      convert_rows strptime float (line # lines) (ts, rs, sk) =
      convert_rows strptime float lines (ts, rs, sk @ [strip line])"
    by simp
  have d: "convert_to_csv strptime float all_lines =
     (map fst (List.map_filter (parse_line strptime float)
                 (filter (\<lambda>l. strip l \<noteq> []) (drop 1 all_lines))),
      map snd (List.map_filter (parse_line strptime float)
                 (filter (\<lambda>l. strip l \<noteq> []) (drop 1 all_lines))),
      map strip (filter (\<lambda>l. parse_line strptime float l = None)
                 (filter (\<lambda>l. strip l \<noteq> []) (drop 1 all_lines))))"
    using convert_rows_skips[of strptime float "drop 1 all_lines" "[]" "[]" "[]"]
    by (simp add: convert_to_csv_def)
  from a b c d show ?thesis by blast
qed


theorem load_is_strict_where_converter_skips_witness:
  "load_latency_trace float_decimal styled_header_file =
     load_latency_trace float_decimal
       ([''timestamp'', ''relative'', ''rtt''] # tl styled_header_file) \<and>
   float_item float_decimal [''b'', ''oops'', ''1.0''] 1 = Inl ValueError \<and>
   isl (load_latency_trace float_decimal styled_header_file) \<and>
   strip ''t2,abc'' \<noteq> [] \<and> parse_line Some float_decimal ''t2,abc'' = None \<and>
   convert_rows Some float_decimal [''t2,abc'', ''t3,7.5''] ([], [], []) =
     convert_rows Some float_decimal [''t3,7.5''] ([], [], [''t2,abc'']) \<and>
   convert_to_csv Some float_decimal [''timestamp,rtt'', ''t1,12.5'', ''t2,abc'', ''t3,7.5''] =
     ([''t1'', ''t3''], [25 / 2, 15 / 2], [''t2,abc''])"
proof -
  let ?h = "[''t'', ''5.0'', ''7.0'']"
  let ?rows = "[[''a'', ''0.0'', ''100.0''], [''b'', ''oops'', ''1.0'']]"
  have f: "styled_header_file = ?h # ?rows" by (simp add: styled_header_file_def)
  have bad: "float_item float_decimal [''b'', ''oops'', ''1.0''] 1 = Inl ValueError"
    by (simp add: float_decimal_eval)
  then have ex: "\<exists>row\<in>set ?rows. isl (float_item float_decimal row 1) \<or>
      isl (float_item float_decimal row 2)"
    by simp
  have nb: "strip ''t2,abc'' \<noteq> []" by (simp add: strip_def is_space_def)
  have pl: "parse_line Some float_decimal ''t2,abc'' = None"
    by (simp add: parse_line_def float_decimal_eval)
  have p1: "parse_line Some float_decimal ''t1,12.5'' = Some (''t1'', 25 / 2)"
    by (simp add: parse_line_def float_decimal_eval)
  have p3: "parse_line Some float_decimal ''t3,7.5'' = Some (''t3'', 15 / 2)"
    by (simp add: parse_line_def float_decimal_eval)
  have nb1: "strip ''t1,12.5'' \<noteq> []" "strip ''t3,7.5'' \<noteq> []"
    by (simp_all add: strip_def is_space_def)
  have st: "strip ''t2,abc'' = ''t2,abc''" by (simp add: strip_def is_space_def)
  note t = load_is_strict_where_converter_skips[of float_decimal ?h ?rows
      "[''timestamp'', ''relative'', ''rtt'']" "''t2,abc''" Some "[''t3,7.5'']" "[]" "[]" "[]"
      "[''timestamp,rtt'', ''t1,12.5'', ''t2,abc'', ''t3,7.5'']"]
  have c1: "load_latency_trace float_decimal styled_header_file =
     load_latency_trace float_decimal
       ([''timestamp'', ''relative'', ''rtt''] # tl styled_header_file)"
    using t unfolding f by simp
  have c2: "isl (load_latency_trace float_decimal styled_header_file)"
    using t ex unfolding f by blast
  have c3: "convert_rows Some float_decimal [''t2,abc'', ''t3,7.5''] ([], [], []) =
     convert_rows Some float_decimal [''t3,7.5''] ([], [], [''t2,abc''])"
    using t nb pl st by simp
  have c4: "convert_to_csv Some float_decimal
       [''timestamp,rtt'', ''t1,12.5'', ''t2,abc'', ''t3,7.5''] =
     ([''t1'', ''t3''], [25 / 2, 15 / 2], [''t2,abc''])"
    using t nb nb1 pl p1 p3 st by (simp add: List.map_filter_simps)
  from c1 bad c2 nb pl c3 c4 show ?thesis by blast
qed

subsection \<open>An empty trace\<close>

text \<open>
  A file that holds only a header line loads without error, into an empty trace; the
  thread whose trace it is then calls the selector on the empty trace at its first tick,
  where \<^verbatim>\<open>min\<close> raises \<^verbatim>\<open>ValueError\<close>, after the baseline call has been made.
\<close>

theorem header_only_file_loads_empty:
  "load_latency_trace float_decimal header_only_file = Inr (latency header_only_run) \<and>
   latency header_only_run = [] \<and>
   get_closest_latency header_only_run = Inl ValueError \<and>
   pc (exec [Loop, Fire, Loop, Loop] header_only_run) = L80 \<and>
   calls (exec [Loop, Fire, Loop, Loop] header_only_run) = [(100, 100, 0)] \<and>
   pc (exec [Loop, Fire, Loop, Loop, Loop] header_only_run) = Crashed ValueError"
proof -
  have h: "pc header_only_run = L75" "latency header_only_run = []"
    "start_time header_only_run = Some 0"
    "nameToNode header_only_run (host_name header_only_run) = Some [1, 2]"
    "calls header_only_run = []"
    by (simp_all add: header_only_run_def bent_pipe_def)
  have l: "load_latency_trace float_decimal header_only_file = Inr (latency header_only_run)"
    by (simp add: h(2) header_only_file_def load_latency_trace_def)
  have g: "get_closest_latency header_only_run = Inl ValueError"
    using h(2,3) by (rule get_closest_latency_empty)
  let ?w1 = "header_only_run\<lparr>intfs := intfs (fold (configure_intf 100 0) [1, 2] header_only_run),
     calls := calls header_only_run @ [(100, 100, 0)], max_updates := 10, updates := 0, pc := L78\<rparr>"
  have s1: "thread_step header_only_run = ?w1" using thread_step_L75[OF h(1,4)] .
  let ?w2 = "?w1\<lparr>update_event := True\<rparr>"
  let ?w3 = "?w2\<lparr>pc := L79\<rparr>"
  have s3: "thread_step ?w2 = ?w3" by (simp add: thread_step_L78)
  let ?w4 = "?w3\<lparr>pc := L80\<rparr>"
  have s4: "thread_step ?w3 = ?w4" by (simp add: thread_step_L79)
  have e: "exec [Loop, Fire, Loop, Loop] header_only_run = ?w4"
    by (simp only: exec_Cons exec_Nil act.simps s1 s3 s4)
  have c: "pc (exec ([Loop, Fire, Loop, Loop, Loop] @ []) header_only_run) = Crashed ValueError"
    using empty_trace_crash[OF h(1,2,3,4), of "[]"] by simp
  show ?thesis using l h(2,5) g c by (simp add: e)
qed

text \<open>
  C7, as the code has it. A trace that loaded successfully can be empty: a file that
  holds a header line and no data row loads without error into the empty trace, and the
  loaded trace is empty exactly when there is no data row; loading fails for want of
  data only when the file has no line at all (\<^verbatim>\<open>next(reader)\<close> raises
  \<^verbatim>\<open>StopIteration\<close>). The selector is invoked on whatever was loaded: on an empty
  trace it raises \<^verbatim>\<open>ValueError\<close>, and in a run this happens at the first tick
  consumed, after the baseline call, and ends the thread.
\<close>

theorem loaded_trace_may_be_empty:
  "load_latency_trace float [header] = Inr [] \<and>
   (load_latency_trace float (header # rows) = Inr tr \<longrightarrow> (tr = [] \<longleftrightarrow> rows = [])) \<and>
   load_latency_trace float [] = Inl StopIteration \<and>
   (latency w = [] \<and> start_time w = Some st \<longrightarrow> get_closest_latency w = Inl ValueError) \<and>
   (pc w' = L75 \<and> latency w' = [] \<and> start_time w' = Some st' \<and>
    nameToNode w' (host_name w') = Some il \<longrightarrow>
      pc (exec (Loop # Fire # Loop # Loop # Loop # sch) w') = Crashed ValueError \<and>
      calls (exec (Loop # Fire # Loop # Loop # Loop # sch) w') = calls w' @ [(100, 100, 0)])"
proof -
  have a: "load_latency_trace float [header] = Inr []"
    by (simp add: load_latency_trace_def)
  have b: "load_latency_trace float (header # rows) = Inr tr \<longrightarrow> (tr = [] \<longleftrightarrow> rows = [])"
    using load_rows_empty_iff[of float rows "[]" tr] by (simp add: load_latency_trace_def)
  have c: "load_latency_trace float [] = Inl StopIteration"
    by (simp add: load_latency_trace_def)
  have d: "latency w = [] \<and> start_time w = Some st \<longrightarrow> get_closest_latency w = Inl ValueError"
    using get_closest_latency_empty by blast
  have e: "pc w' = L75 \<and> latency w' = [] \<and> start_time w' = Some st' \<and>
    nameToNode w' (host_name w') = Some il \<longrightarrow>
      pc (exec (Loop # Fire # Loop # Loop # Loop # sch) w') = Crashed ValueError \<and>
      calls (exec (Loop # Fire # Loop # Loop # Loop # sch) w') = calls w' @ [(100, 100, 0)]"
    using empty_trace_crash by blast
  from a b c d e show ?thesis by blast
qed

theorem loaded_trace_may_be_empty_witness:
  "load_latency_trace float_decimal
     [[''timestamp'', ''relative'', ''rtt''], [''a'', ''0.0'', ''100.0'']] = Inr [(0, 100)] \<and>
   load_latency_trace float_decimal [[''timestamp'', ''relative'', ''rtt'']] = Inr [] \<and>
   latency (bent_pipe\<lparr>latency := []\<rparr>) = [] \<and>
   start_time (bent_pipe\<lparr>latency := []\<rparr>) = Some 0 \<and>
   get_closest_latency (bent_pipe\<lparr>latency := []\<rparr>) = Inl ValueError \<and>
   pc header_only_run = L75 \<and> latency header_only_run = [] \<and>
   start_time header_only_run = Some 0 \<and>
   nameToNode header_only_run (host_name header_only_run) = Some [1, 2] \<and>
   pc (exec [Loop, Fire, Loop, Loop, Loop, Fire, Loop] header_only_run) = Crashed ValueError \<and>
   calls (exec [Loop, Fire, Loop, Loop, Loop, Fire, Loop] header_only_run) = [(100, 100, 0)]"
proof -
  let ?hd = "[''timestamp'', ''relative'', ''rtt'']"
  let ?w = "bent_pipe\<lparr>latency := []\<rparr>"
  have l: "load_latency_trace float_decimal [?hd, [''a'', ''0.0'', ''100.0'']] = Inr [(0, 100)]"
    by (simp add: float_decimal_eval)
  have w: "latency ?w = []" "start_time ?w = Some 0" by (simp_all add: bent_pipe_def)
  have h: "pc header_only_run = L75" "latency header_only_run = []"
    "start_time header_only_run = Some 0"
    "nameToNode header_only_run (host_name header_only_run) = Some [1, 2]"
    "calls header_only_run = []"
    by (simp_all add: header_only_run_def bent_pipe_def)
  note t = loaded_trace_may_be_empty[of float_decimal ?hd "[[''a'', ''0.0'', ''100.0'']]"
      "[(0, 100)]" ?w 0 header_only_run 0 "[1, 2]" "[Fire, Loop]"]
  have c1: "load_latency_trace float_decimal [?hd] = Inr []" using t by blast
  have c2: "get_closest_latency ?w = Inl ValueError" using t w by blast
  have c3: "pc (exec [Loop, Fire, Loop, Loop, Loop, Fire, Loop] header_only_run) = Crashed ValueError \<and>
   calls (exec [Loop, Fire, Loop, Loop, Loop, Fire, Loop] header_only_run) = [(100, 100, 0)]"
    using t h by simp
  from l c1 w c2 h(1,2,3,4) c3 show ?thesis by blast
qed

subsection \<open>The Periodic Trigger\<close>







subsection \<open>The trigger when it fell behind\<close>




subsection \<open>The trigger when it is on time\<close>




end
